theory Spec2Isabelle
  imports Main
begin

section \<open>Errors\<close>

text \<open>
  The exceptions that the program and the graph library can raise. \<open>NoReturn\<close> is not a
  Python exception: it stands for a library call that never returns. Nothing after such a
  call runs, so it propagates through the callers the way an exception does.
\<close>

datatype error =
  NetworkXNoPath | NodeNotFound | NetworkXError | KeyError | StopIteration | ValueError
  | NoReturn

section \<open>Insertion-ordered dictionaries\<close>

text \<open>
  A Python \<open>dict\<close> keeps its keys in insertion order, and the program observes that order
  (\<open>g.nodes()\<close>, \<open>next(g.neighbors(node))\<close>, \<open>g2.edges()\<close>), so a dictionary is an
  association list. Assigning to a present key keeps its position; a new key goes last.
\<close>

fun od_set :: "('k \<times> 'v) list \<Rightarrow> 'k \<Rightarrow> 'v \<Rightarrow> ('k \<times> 'v) list" where
  "od_set [] k v = [(k, v)]"
| "od_set ((k', v') # d) k v = (if k' = k then (k', v) # d else (k', v') # od_set d k v)"

definition od_del :: "('k \<times> 'v) list \<Rightarrow> 'k \<Rightarrow> ('k \<times> 'v) list" where
  "od_del d k = filter (\<lambda>kv. fst kv \<noteq> k) d"

type_synonym attrs = "(string \<times> int) list"

definition dict_update :: "attrs \<Rightarrow> attrs \<Rightarrow> attrs" where
  "dict_update d upd = fold (\<lambda>kv d'. od_set d' (fst kv) (snd kv)) upd d"

definition dict_get :: "attrs \<Rightarrow> string \<Rightarrow> int \<Rightarrow> int" where
  "dict_get d k dflt = (case map_of d k of None \<Rightarrow> dflt | Some v \<Rightarrow> v)"

section \<open>The graph container (\<open>nx.Graph\<close>)\<close>

text \<open>
  An undirected graph is the dictionary of its nodes, each with the dictionary of its
  neighbours, each with the attribute dictionary of the edge. Weights are Python integers.
\<close>

type_synonym 'a graph = "('a \<times> ('a \<times> attrs) list) list"

definition nodes :: "'a graph \<Rightarrow> 'a list" where
  "nodes g = map fst g"

definition adj :: "'a graph \<Rightarrow> 'a \<Rightarrow> ('a \<times> attrs) list" where
  "adj g n = (case map_of g n of None \<Rightarrow> [] | Some nb \<Rightarrow> nb)"

definition neighbors :: "'a graph \<Rightarrow> 'a \<Rightarrow> 'a list" where
  "neighbors g n = map fst (adj g n)"

definition edge_attrs :: "'a graph \<Rightarrow> 'a \<Rightarrow> 'a \<Rightarrow> attrs option" where
  "edge_attrs g u v = map_of (adj g u) v"

definition add_node :: "'a graph \<Rightarrow> 'a \<Rightarrow> 'a graph" where
  "add_node g n = (if n \<in> set (nodes g) then g else g @ [(n, [])])"

definition add_nodes_from :: "'a graph \<Rightarrow> 'a list \<Rightarrow> 'a graph" where
  "add_nodes_from g ns = fold (\<lambda>n g'. add_node g' n) ns g"

definition set_adj :: "'a graph \<Rightarrow> 'a \<Rightarrow> 'a \<Rightarrow> attrs \<Rightarrow> 'a graph" where
  "set_adj g u v d = map (\<lambda>e. if fst e = u then (fst e, od_set (snd e) v d) else e) g"

text \<open>
  \<open>Graph.add_edge(u, v, **attr)\<close>: both end points become nodes, the edge's attribute
  dictionary (a new one when the edge is new) is updated with \<open>attr\<close> and stored in both
  directions.
\<close>

definition add_edge :: "'a graph \<Rightarrow> 'a \<Rightarrow> 'a \<Rightarrow> attrs \<Rightarrow> 'a graph" where
  "add_edge g u v attr =
     (let g2 = add_node (add_node g u) v;
          datadict = dict_update (case edge_attrs g2 u v of None \<Rightarrow> [] | Some d \<Rightarrow> d) attr
      in set_adj (set_adj g2 u v datadict) v u datadict)"

text \<open>
  \<open>Graph.remove_node(n)\<close> raises \<open>NetworkXError\<close> when \<open>n\<close> is not a node; otherwise it
  deletes \<open>n\<close> from the adjacency of each of its neighbours and deletes its own entry.
  The adjacency of an \<open>nx.Graph\<close> is symmetric, so the neighbours of \<open>n\<close> are the nodes
  whose adjacency mentions \<open>n\<close>.
\<close>

definition remove_node :: "'a graph \<Rightarrow> 'a \<Rightarrow> error + 'a graph" where
  "remove_node g n =
     (if n \<notin> set (nodes g) then Inl NetworkXError
      else Inr (map (\<lambda>e. (fst e, od_del (snd e) n)) (od_del g n)))"

text \<open>\<open>g.degree(n)\<close>: the number of neighbours, a self-loop counting twice.\<close>

definition degree :: "'a graph \<Rightarrow> 'a \<Rightarrow> nat" where
  "degree g n = length (adj g n) + (if n \<in> set (neighbors g n) then 1 else 0)"

text \<open>
  \<open>g.edges(data=True)\<close>: the nodes in order, each with those of its neighbours that have
  not been visited as a node before, so every edge is reported once, from its earlier end.
\<close>

fun edges_from :: "'a list \<Rightarrow> 'a graph \<Rightarrow> ('a \<times> 'a \<times> attrs) list" where
  "edges_from seen [] = []"
| "edges_from seen (e # g) =
     map (\<lambda>nb. (fst e, fst nb, snd nb)) (filter (\<lambda>nb. fst nb \<notin> set seen) (snd e))
     @ edges_from (fst e # seen) g"

definition edges_data :: "'a graph \<Rightarrow> ('a \<times> 'a \<times> attrs) list" where
  "edges_data g = edges_from [] g"

definition edges :: "'a graph \<Rightarrow> ('a \<times> 'a) list" where
  "edges g = map (\<lambda>e. (fst e, fst (snd e))) (edges_data g)"

definition number_of_nodes :: "'a graph \<Rightarrow> nat" where
  "number_of_nodes g = length g"

text \<open>\<open>g.number_of_edges()\<close> is half the sum of the degrees.\<close>

definition number_of_edges :: "'a graph \<Rightarrow> nat" where
  "number_of_edges g = sum_list (map (degree g) (nodes g)) div 2"

text \<open>
  \<open>nx.Graph(g)\<close> builds a new graph from the adjacency of \<open>g\<close>: first all the nodes, then
  one \<open>add_edge\<close> for every entry \<open>(u, v, data)\<close> of every adjacency dictionary, in order.
\<close>

definition adjacency_entries :: "'a graph \<Rightarrow> ('a \<times> 'a \<times> attrs) list" where
  "adjacency_entries g = concat (map (\<lambda>e. map (\<lambda>nb. (fst e, fst nb, snd nb)) (snd e)) g)"

definition add_edges_from :: "'a graph \<Rightarrow> ('a \<times> 'a \<times> attrs) list \<Rightarrow> 'a graph" where
  "add_edges_from g es = fold (\<lambda>e g'. add_edge g' (fst e) (fst (snd e)) (snd (snd e))) es g"

definition Graph_of :: "'a graph \<Rightarrow> 'a graph" where
  "Graph_of g = add_edges_from (add_nodes_from [] (nodes g)) (adjacency_entries g)"

section \<open>Graph objects\<close>

text \<open>
  Graphs are mutable objects. The store is the table from references to the current value
  of the graph object each one names; \<open>next_ref\<close> is the first reference not yet given
  out. Creating a graph takes that reference; a mutating method rewrites one cell.
\<close>

record 'a heap =
  cells_table :: "(nat \<times> 'a graph) list"
  next_ref :: nat

definition cells :: "'a heap \<Rightarrow> nat \<Rightarrow> 'a graph" where
  "cells hp r = (case map_of (cells_table hp) r of None \<Rightarrow> [] | Some g \<Rightarrow> g)"

definition new_Graph :: "'a graph \<Rightarrow> 'a heap \<Rightarrow> nat \<times> 'a heap" where
  "new_Graph g hp =
     (next_ref hp,
      hp\<lparr>cells_table := od_set (cells_table hp) (next_ref hp) g,
         next_ref := Suc (next_ref hp)\<rparr>)"

definition update_graph :: "nat \<Rightarrow> 'a graph \<Rightarrow> 'a heap \<Rightarrow> 'a heap" where
  "update_graph r g hp = hp\<lparr>cells_table := od_set (cells_table hp) r g\<rparr>"

section \<open>The graph engine\<close>

text \<open>
  The heuristic shortest-path search and the minimum spanning tree belong to the graph
  library, not to this repository, so the program is modelled over any engine that offers
  them. They read the graph they are given and change no graph object; the spanning tree is
  a new graph.
\<close>

record 'a engine =
  astar_path :: "'a graph \<Rightarrow> 'a \<Rightarrow> 'a \<Rightarrow> ('a \<Rightarrow> 'a \<Rightarrow> int) \<Rightarrow> string \<Rightarrow> error + 'a list"
  astar_path_length :: "'a graph \<Rightarrow> 'a \<Rightarrow> 'a \<Rightarrow> ('a \<Rightarrow> 'a \<Rightarrow> int) \<Rightarrow> string \<Rightarrow> error + int"
  minimum_spanning_tree :: "'a graph \<Rightarrow> string \<Rightarrow> 'a graph"

section \<open>The program\<close>

subsection \<open>\<open>get_complete_distance_graph\<close>\<close>

text \<open>\<open>itertools.combinations(xs, 2)\<close> and \<open>itertools.pairwise(xs)\<close>.\<close>

fun combinations2 :: "'a list \<Rightarrow> ('a \<times> 'a) list" where
  "combinations2 [] = []"
| "combinations2 (x # xs) = map (Pair x) xs @ combinations2 xs"

fun pairwise :: "'a list \<Rightarrow> ('a \<times> 'a) list" where
  "pairwise (x # y # xs) = (x, y) # pairwise (y # xs)"
| "pairwise xs = []"

text \<open>The loop over the pairs of terminals; an exception of the search leaves the loop.\<close>

fun distance_loop ::
  "'a engine \<Rightarrow> nat \<Rightarrow> ('a \<Rightarrow> 'a \<Rightarrow> int) \<Rightarrow> string \<Rightarrow> ('a \<times> 'a) list \<Rightarrow> nat \<Rightarrow> 'a heap
   \<Rightarrow> (error + unit) \<times> 'a heap" where
  "distance_loop E g_original h weight [] g hp = (Inr (), hp)"
| "distance_loop E g_original h weight (p # ps) g hp =
     (case astar_path_length E (cells hp g_original) (fst p) (snd p) h weight of
        Inl e \<Rightarrow> (Inl e, hp)
      | Inr shortest_path_length \<Rightarrow>
          distance_loop E g_original h weight ps g
            (update_graph g
               (add_edge (cells hp g) (fst p) (snd p) [(''weight'', shortest_path_length)]) hp))"

definition get_complete_distance_graph ::
  "'a engine \<Rightarrow> nat \<Rightarrow> 'a list \<Rightarrow> ('a \<Rightarrow> 'a \<Rightarrow> int) \<Rightarrow> string \<Rightarrow> 'a heap
   \<Rightarrow> (error + nat) \<times> 'a heap" where
  "get_complete_distance_graph E g_original terminal_nodes h weight hp =
     (let (g, hp1) = new_Graph [] hp;
          hp2 = update_graph g (add_nodes_from (cells hp1 g) terminal_nodes) hp1
      in case distance_loop E g_original h weight (combinations2 terminal_nodes) g hp2 of
           (Inl e, hp3) \<Rightarrow> (Inl e, hp3)
         | (Inr u, hp3) \<Rightarrow> (Inr g, hp3))"

subsection \<open>\<open>remove_redundant_nodes\<close>\<close>

text \<open>
  The body of the \<open>for\<close> loop, for one node of the snapshot. \<open>g.neighbors(node)\<close> raises
  \<open>NetworkXError\<close> when the node is no longer in the graph, \<open>next\<close> raises
  \<open>StopIteration\<close> when it has no neighbour, \<open>list.remove\<close> raises \<open>ValueError\<close> when
  the node is not in the list and removes its first occurrence otherwise.
\<close>

definition prune_body ::
  "'a list \<Rightarrow> nat \<Rightarrow> 'a \<Rightarrow> 'a list \<Rightarrow> 'a heap \<Rightarrow> (error + 'a list) \<times> 'a heap" where
  "prune_body terminal_nodes g node leaf hp =
     (if node \<notin> set (nodes (cells hp g)) then (Inl NetworkXError, hp)
      else case neighbors (cells hp g) node of
        [] \<Rightarrow> (Inl StopIteration, hp)
      | neighbour # rest \<Rightarrow>
          (let leaf1 = (if neighbour \<notin> set terminal_nodes then leaf @ [neighbour] else leaf)
           in if node \<notin> set leaf1 then (Inl ValueError, hp)
              else case remove_node (cells hp g) node of
                     Inl e \<Rightarrow> (Inl e, hp)
                   | Inr g' \<Rightarrow> (Inr (remove1 node leaf1), update_graph g g' hp)))"

text \<open>The \<open>for\<close> loop over the snapshot \<open>leaf_non_terminal_nodes[:]\<close>.\<close>

fun prune_round ::
  "'a list \<Rightarrow> nat \<Rightarrow> 'a list \<Rightarrow> 'a list \<Rightarrow> 'a heap \<Rightarrow> (error + 'a list) \<times> 'a heap" where
  "prune_round terminal_nodes g [] leaf hp = (Inr leaf, hp)"
| "prune_round terminal_nodes g (node # snapshot) leaf hp =
     (case prune_body terminal_nodes g node leaf hp of
        (Inl e, hp') \<Rightarrow> (Inl e, hp')
      | (Inr leaf', hp') \<Rightarrow> prune_round terminal_nodes g snapshot leaf' hp')"

text \<open>The \<open>while\<close> loop: every round that returns has removed a node from the graph.\<close>

function prune_loop ::
  "'a list \<Rightarrow> nat \<Rightarrow> 'a list \<Rightarrow> 'a heap \<Rightarrow> (error + unit) \<times> 'a heap" where
  "prune_loop terminal_nodes g leaf hp =
     (if leaf = [] then (Inr (), hp)
      else case prune_round terminal_nodes g leaf leaf hp of
             (Inl e, hp') \<Rightarrow> (Inl e, hp')
           | (Inr leaf', hp') \<Rightarrow> prune_loop terminal_nodes g leaf' hp')"
  by pat_completeness auto
termination
proof (relation "measure (\<lambda>(terminal_nodes, g, leaf, hp). length (cells hp g))")
  show "wf (measure (\<lambda>(terminal_nodes, g, leaf, hp). length (cells hp (g::nat))))"
    by simp
next
  fix terminal_nodes :: "'a list" and g :: nat and leaf :: "'a list" and hp :: "'a heap"
    and res :: "error + 'a list" and hp' :: "'a heap" and leaf' :: "'a list"
  assume ne: "leaf \<noteq> []"
    and xr: "(res, hp') = prune_round terminal_nodes g leaf leaf hp"
    and r: "res = Inr leaf'"
  have stored: "map_of (od_set d k v) k = Some v" for d :: "(nat \<times> 'a graph) list" and k v
    by (induction d) auto
  have body: "Suc (length (cells h2 g)) \<le> length (cells h1 g)"
    if "prune_body terminal_nodes g n l1 h1 = (Inr l2, h2)"
    for n l1 l2 and h1 h2 :: "'a heap"
  proof -
    from that have n: "n \<in> set (nodes (cells h1 g))"
      and c: "cells h2 g = map (\<lambda>e. (fst e, od_del (snd e) n)) (od_del (cells h1 g) n)"
      by (auto simp: prune_body_def remove_node_def update_graph_def Let_def stored
          cells_def[of "h1\<lparr>cells_table := x\<rparr>" for x]
          split: if_splits list.splits)
    from n obtain e where e: "e \<in> set (cells h1 g)" "fst e = n"
      by (auto simp: nodes_def)
    then have "length (od_del (cells h1 g) n) < length (cells h1 g)"
      unfolding od_del_def by (intro length_filter_less[of e]) auto
    with c show ?thesis by simp
  qed
  have round: "length (cells h2 g) + length snap \<le> length (cells h1 g)"
    if "prune_round terminal_nodes g snap l1 h1 = (Inr l2, h2)"
    for snap l1 l2 and h1 h2 :: "'a heap"
    using that
  proof (induction snap arbitrary: l1 h1)
    case Nil
    then show ?case by simp
  next
    case (Cons n snap)
    then show ?case
      by (fastforce split: prod.splits sum.splits dest: body)
  qed
  from ne xr r round[of leaf leaf hp leaf' hp']
  show "((terminal_nodes, g, leaf', hp'), (terminal_nodes, g, leaf, hp))
        \<in> measure (\<lambda>(terminal_nodes, g, leaf, hp). length (cells hp g))"
    by (cases leaf) auto
qed

declare prune_loop.simps [simp del]

definition remove_redundant_nodes ::
  "nat \<Rightarrow> 'a list \<Rightarrow> 'a heap \<Rightarrow> (error + nat) \<times> 'a heap" where
  "remove_redundant_nodes g_original terminal_nodes hp =
     (let (g, hp1) = new_Graph (Graph_of (cells hp g_original)) hp;
          leaf_non_terminal_nodes =
            filter (\<lambda>node. degree (cells hp1 g) node = 1 \<and> node \<notin> set terminal_nodes)
              (nodes (cells hp1 g))
      in case prune_loop terminal_nodes g leaf_non_terminal_nodes hp1 of
           (Inl e, hp2) \<Rightarrow> (Inl e, hp2)
         | (Inr u, hp2) \<Rightarrow> (Inr g, hp2))"

subsection \<open>\<open>kou_et_al\<close>\<close>

text \<open>
  \<open>g_original[edge_start][edge_end][weight]\<close>: three subscripts, each raising
  \<open>KeyError\<close> on a missing key.
\<close>

definition edge_weight_item :: "'a graph \<Rightarrow> 'a \<Rightarrow> 'a \<Rightarrow> string \<Rightarrow> error + int" where
  "edge_weight_item g u v weight =
     (if u \<notin> set (nodes g) then Inl KeyError
      else case edge_attrs g u v of
             None \<Rightarrow> Inl KeyError
           | Some d \<Rightarrow> (case map_of d weight of None \<Rightarrow> Inl KeyError | Some x \<Rightarrow> Inr x))"

fun add_path_edges ::
  "nat \<Rightarrow> string \<Rightarrow> ('a \<times> 'a) list \<Rightarrow> nat \<Rightarrow> 'a heap \<Rightarrow> (error + unit) \<times> 'a heap" where
  "add_path_edges g_original weight [] g3 hp = (Inr (), hp)"
| "add_path_edges g_original weight (e # es) g3 hp =
     (case edge_weight_item (cells hp g_original) (fst e) (snd e) weight of
        Inl err \<Rightarrow> (Inl err, hp)
      | Inr x \<Rightarrow>
          add_path_edges g_original weight es g3
            (update_graph g3 (add_edge (cells hp g3) (fst e) (snd e) [(''weight'', x)]) hp))"

fun expand_loop ::
  "'a engine \<Rightarrow> nat \<Rightarrow> ('a \<Rightarrow> 'a \<Rightarrow> int) \<Rightarrow> string \<Rightarrow> ('a \<times> 'a) list \<Rightarrow> nat \<Rightarrow> 'a heap
   \<Rightarrow> (error + unit) \<times> 'a heap" where
  "expand_loop E g_original h weight [] g3 hp = (Inr (), hp)"
| "expand_loop E g_original h weight (e # es) g3 hp =
     (case astar_path E (cells hp g_original) (fst e) (snd e) h weight of
        Inl err \<Rightarrow> (Inl err, hp)
      | Inr shortest_path \<Rightarrow>
          (case add_path_edges g_original weight (pairwise shortest_path) g3 hp of
             (Inl err, hp') \<Rightarrow> (Inl err, hp')
           | (Inr u, hp') \<Rightarrow> expand_loop E g_original h weight es g3 hp'))"

definition kou_et_al ::
  "'a engine \<Rightarrow> nat \<Rightarrow> ('a \<Rightarrow> 'a \<Rightarrow> int) \<Rightarrow> 'a list \<Rightarrow> string \<Rightarrow> 'a heap
   \<Rightarrow> (error + nat) \<times> 'a heap" where
  "kou_et_al E g_original h terminal_points weight hp =
     (case get_complete_distance_graph E g_original terminal_points h weight hp of
        (Inl e, hp1) \<Rightarrow> (Inl e, hp1)
      | (Inr g1, hp1) \<Rightarrow>
          (let (g2, hp2) = new_Graph (minimum_spanning_tree E (cells hp1 g1) weight) hp1;
               (g3, hp3) = new_Graph [] hp2
           in case expand_loop E g_original h weight (edges (cells hp3 g2)) g3 hp3 of
                (Inl e, hp4) \<Rightarrow> (Inl e, hp4)
              | (Inr u, hp4) \<Rightarrow>
                  (let (g4, hp5) =
                         new_Graph (minimum_spanning_tree E (cells hp4 g3) weight) hp4
                   in remove_redundant_nodes g4 terminal_points hp5)))"

section \<open>A reference engine\<close>

text \<open>
  Modelled from the spec: the Graph Engine of its section 6 (heuristic shortest-path search
  and minimum spanning tree), which is the graph library and not under the sources. The
  model follows the library's algorithms, so that the program can be run on concrete
  graphs: a best-first search over a priority queue whose entries are
  \<open>(priority, counter, node, cost, parent)\<close>, ties in the priority going to the entry
  pushed first, and Kruskal's algorithm over the edges sorted stably by weight.
\<close>

type_synonym 'a qitem = "int \<times> nat \<times> 'a \<times> int \<times> 'a option"

text \<open>
  The queue is kept sorted by \<open>(priority, counter)\<close>; the counters are all different, so
  the head of the list is the entry that \<open>heappop\<close> returns.
\<close>

fun heappush :: "'a qitem \<Rightarrow> 'a qitem list \<Rightarrow> 'a qitem list" where
  "heappush x [] = [x]"
| "heappush x (y # ys) =
     (if fst x < fst y \<or> (fst x = fst y \<and> fst (snd x) < fst (snd y)) then x # y # ys
      else y # heappush x ys)"

text \<open>
  The loop over the neighbours of the node taken from the queue. The state is the counter,
  the queue and the dictionary \<open>enqueued\<close> of the best known cost and the heuristic value
  of each node that was ever pushed.
\<close>

fun astar_relax ::
  "('a \<Rightarrow> 'a \<Rightarrow> int) \<Rightarrow> string \<Rightarrow> 'a \<Rightarrow> 'a \<Rightarrow> int \<Rightarrow> ('a \<times> attrs) list
   \<Rightarrow> nat \<times> 'a qitem list \<times> ('a \<times> int \<times> int) list
   \<Rightarrow> nat \<times> 'a qitem list \<times> ('a \<times> int \<times> int) list" where
  "astar_relax h weight target curnode dist [] st = st"
| "astar_relax h weight target curnode dist (nb # rest) st =
     (let c = fst st; queue = fst (snd st); enqueued = snd (snd st);
          neighbor = fst nb;
          ncost = dist + dict_get (snd nb) weight 1
      in case map_of enqueued neighbor of
           Some qh \<Rightarrow>
             if fst qh \<le> ncost then astar_relax h weight target curnode dist rest st
             else astar_relax h weight target curnode dist rest
                    (Suc c, heappush (ncost + snd qh, c, neighbor, ncost, Some curnode) queue,
                     od_set enqueued neighbor (ncost, snd qh))
         | None \<Rightarrow>
             (let hn = h neighbor target
              in astar_relax h weight target curnode dist rest
                   (Suc c, heappush (ncost + hn, c, neighbor, ncost, Some curnode) queue,
                    od_set enqueued neighbor (ncost, hn))))"

text \<open>Following the parents back from the target; the path is reversed at the end.\<close>

partial_function (option) build_path ::
  "('a \<times> 'a option) list \<Rightarrow> 'a option \<Rightarrow> 'a list \<Rightarrow> (error + 'a list) option" where
  "build_path explored node path =
     (case node of
        None \<Rightarrow> Some (Inr (rev path))
      | Some n \<Rightarrow>
          (case map_of explored n of
             None \<Rightarrow> Some (Inl KeyError)
           | Some parent \<Rightarrow> build_path explored parent (path @ [n])))"

declare build_path.simps [code]

text \<open>
  The search loop. It need not end when a weight is negative, so it is a partial function:
  \<open>None\<close> is a search that runs forever.
\<close>

partial_function (option) astar_loop ::
  "'a graph \<Rightarrow> ('a \<Rightarrow> 'a \<Rightarrow> int) \<Rightarrow> string \<Rightarrow> 'a
   \<Rightarrow> nat \<times> 'a qitem list \<times> ('a \<times> int \<times> int) list \<Rightarrow> ('a \<times> 'a option) list
   \<Rightarrow> (error + 'a list) option" where
  "astar_loop G h weight target st explored =
     (case fst (snd st) of
        [] \<Rightarrow> Some (Inl NetworkXNoPath)
      | item # queue \<Rightarrow>
          (let curnode = fst (snd (snd item));
               dist = fst (snd (snd (snd item)));
               parent = snd (snd (snd (snd item)));
               enqueued = snd (snd st)
           in if curnode = target then build_path explored parent [curnode]
              else case map_of explored curnode of
                     Some None \<Rightarrow> astar_loop G h weight target (fst st, queue, enqueued) explored
                   | Some (Some p) \<Rightarrow>
                       (case map_of enqueued curnode of
                          None \<Rightarrow> Some (Inl KeyError)
                        | Some qh \<Rightarrow>
                            if fst qh < dist
                            then astar_loop G h weight target (fst st, queue, enqueued) explored
                            else astar_loop G h weight target
                                   (astar_relax h weight target curnode dist (adj G curnode)
                                      (fst st, queue, enqueued))
                                   (od_set explored curnode parent))
                   | None \<Rightarrow>
                       astar_loop G h weight target
                         (astar_relax h weight target curnode dist (adj G curnode)
                            (fst st, queue, enqueued))
                         (od_set explored curnode parent)))"

declare astar_loop.simps [code]

definition nx_astar_path ::
  "'a graph \<Rightarrow> 'a \<Rightarrow> 'a \<Rightarrow> ('a \<Rightarrow> 'a \<Rightarrow> int) \<Rightarrow> string \<Rightarrow> error + 'a list" where
  "nx_astar_path G source target h weight =
     (if source \<notin> set (nodes G) \<or> target \<notin> set (nodes G) then Inl NodeNotFound
      else case astar_loop G h weight target (1, [(0, 0, source, 0, None)], []) [] of
             None \<Rightarrow> Inl NoReturn
           | Some r \<Rightarrow> r)"

text \<open>The length of the path found: the sum of the weights of its edges.\<close>

fun path_weight :: "'a graph \<Rightarrow> string \<Rightarrow> ('a \<times> 'a) list \<Rightarrow> error + int" where
  "path_weight G weight [] = Inr 0"
| "path_weight G weight (e # es) =
     (case edge_attrs G (fst e) (snd e) of
        None \<Rightarrow> Inl KeyError
      | Some d \<Rightarrow>
          (case path_weight G weight es of
             Inl err \<Rightarrow> Inl err
           | Inr s \<Rightarrow> Inr (dict_get d weight 1 + s)))"

definition nx_astar_path_length ::
  "'a graph \<Rightarrow> 'a \<Rightarrow> 'a \<Rightarrow> ('a \<Rightarrow> 'a \<Rightarrow> int) \<Rightarrow> string \<Rightarrow> error + int" where
  "nx_astar_path_length G source target h weight =
     (if source \<notin> set (nodes G) \<or> target \<notin> set (nodes G) then Inl NodeNotFound
      else case nx_astar_path G source target h weight of
             Inl e \<Rightarrow> Inl e
           | Inr path \<Rightarrow> path_weight G weight (pairwise path))"

text \<open>
  Kruskal's algorithm. The union-find structure is the table that gives each node the
  representative of its subtree (a node is its own representative at first); an edge is
  kept when its ends lie in different subtrees, which are then merged.
\<close>

definition find_subtree :: "('a \<times> 'a) list \<Rightarrow> 'a \<Rightarrow> 'a" where
  "find_subtree subtrees x = (case map_of subtrees x of None \<Rightarrow> x | Some r \<Rightarrow> r)"

definition union_subtrees :: "('a \<times> 'a) list \<Rightarrow> 'a \<Rightarrow> 'a \<Rightarrow> ('a \<times> 'a) list" where
  "union_subtrees subtrees ru rv = map (\<lambda>xr. if snd xr = ru then (fst xr, rv) else xr) subtrees"

fun kruskal ::
  "('a \<times> 'a \<times> attrs) list \<Rightarrow> ('a \<times> 'a) list \<Rightarrow> ('a \<times> 'a \<times> attrs) list" where
  "kruskal [] subtrees = []"
| "kruskal (e # es) subtrees =
     (let ru = find_subtree subtrees (fst e); rv = find_subtree subtrees (fst (snd e))
      in if ru \<noteq> rv then e # kruskal es (union_subtrees subtrees ru rv)
         else kruskal es subtrees)"

definition nx_minimum_spanning_tree :: "'a graph \<Rightarrow> string \<Rightarrow> 'a graph" where
  "nx_minimum_spanning_tree G weight =
     add_edges_from (add_nodes_from [] (nodes G))
       (kruskal (sort_key (\<lambda>e. dict_get (snd (snd e)) weight 1) (edges_data G))
          (map (\<lambda>n. (n, n)) (nodes G)))"

definition nx_engine :: "'a engine" where
  "nx_engine =
     \<lparr>astar_path = nx_astar_path, astar_path_length = nx_astar_path_length,
      minimum_spanning_tree = nx_minimum_spanning_tree\<rparr>"

text \<open>An empty store, and the graph built by adding weighted edges one by one.\<close>

definition empty_heap :: "'a heap" where
  "empty_heap = \<lparr>cells_table = [], next_ref = 0\<rparr>"

definition weighted_graph :: "('a \<times> 'a \<times> int) list \<Rightarrow> 'a graph" where
  "weighted_graph es =
     add_edges_from [] (map (\<lambda>e. (fst e, fst (snd e), [(''weight'', snd (snd e))])) es)"

section \<open>Notions used in the statements\<close>

text \<open>
  \<open>unchanged_except g hp hp'\<close>: no graph object was created and no object other than
  \<open>g\<close> was changed. \<open>extends hp hp'\<close>: every object that existed in \<open>hp\<close> has the
  same value in \<open>hp'\<close>.
\<close>

definition unchanged_except :: "nat \<Rightarrow> 'a heap \<Rightarrow> 'a heap \<Rightarrow> bool" where
  "unchanged_except g hp hp' \<longleftrightarrow>
     next_ref hp' = next_ref hp \<and> (\<forall>r. r \<noteq> g \<longrightarrow> cells hp' r = cells hp r)"

definition extends :: "'a heap \<Rightarrow> 'a heap \<Rightarrow> bool" where
  "extends hp hp' \<longleftrightarrow>
     next_ref hp \<le> next_ref hp' \<and> (\<forall>r. r < next_ref hp \<longrightarrow> cells hp' r = cells hp r)"

text \<open>
  The graphs that \<open>nx.Graph\<close> can hold: no node and no neighbour is listed twice, no
  attribute key is listed twice, every neighbour is a node, and an edge has the same
  attributes seen from either end.
\<close>

definition wf_graph :: "'a graph \<Rightarrow> bool" where
  "wf_graph g \<longleftrightarrow>
     distinct (nodes g) \<and>
     list_all (\<lambda>e. distinct (map fst (snd e)) \<and>
        list_all (\<lambda>nb. fst nb \<in> set (nodes g) \<and> distinct (map fst (snd nb)) \<and>
                       edge_attrs g (fst nb) (fst e) = Some (snd nb)) (snd e)) g"

text \<open>Two graphs with the same nodes, in the same order, the same edges and attributes.\<close>

definition same_graph :: "'a graph \<Rightarrow> 'a graph \<Rightarrow> bool" where
  "same_graph g g' \<longleftrightarrow> nodes g' = nodes g \<and> (\<forall>u v. edge_attrs g' u v = edge_attrs g u v)"

text \<open>A path between two nodes of a graph: a chain of neighbours from one to the other.\<close>

definition edge_rel :: "'a graph \<Rightarrow> ('a \<times> 'a) set" where
  "edge_rel g = {(u, v). v \<in> set (neighbors g u)}"

definition has_path :: "'a graph \<Rightarrow> 'a \<Rightarrow> 'a \<Rightarrow> bool" where
  "has_path g u v \<longleftrightarrow> u \<in> set (nodes g) \<and> v \<in> set (nodes g) \<and> (u, v) \<in> (edge_rel g)\<^sup>*"

section \<open>The graphs of a sample run\<close>

text \<open>
  The input graph \<open>run_G\<close> is a square \<open>1 - 2 - 5 - 3 - 1\<close> of edges of weight 1 with two
  pendant edges of weight 5, \<open>0 - 1\<close> and \<open>1 - 4\<close>; the terminals are 0, 5 and 4. The
  other graphs are the intermediate graphs \<open>g1\<close> to \<open>g5\<close> of \<open>kou_et_al\<close> on this input.
\<close>

abbreviation wt :: "int \<Rightarrow> attrs" where "wt x \<equiv> [(''weight'', x)]"

abbreviation run_G :: "nat graph" where
  "run_G \<equiv> [(0, [(1, wt 5)]), (1, [(0, wt 5), (2, wt 1), (3, wt 1), (4, wt 5)]),
     (2, [(1, wt 1), (5, wt 1)]), (3, [(1, wt 1), (5, wt 1)]), (4, [(1, wt 5)]),
     (5, [(3, wt 1), (2, wt 1)])]"

abbreviation run_g1 :: "nat graph" where
  "run_g1 \<equiv> [(0, [(5, wt 7), (4, wt 10)]), (5, [(0, wt 7), (4, wt 7)]),
     (4, [(0, wt 10), (5, wt 7)])]"

abbreviation run_g2 :: "nat graph" where
  "run_g2 \<equiv> [(0, [(5, wt 7)]), (5, [(0, wt 7), (4, wt 7)]), (4, [(5, wt 7)])]"

abbreviation run_g3 :: "nat graph" where
  "run_g3 \<equiv> [(0, [(1, wt 5)]), (1, [(0, wt 5), (2, wt 1), (3, wt 1), (4, wt 5)]),
     (2, [(1, wt 1), (5, wt 1)]), (5, [(2, wt 1), (3, wt 1)]), (3, [(5, wt 1), (1, wt 1)]),
     (4, [(1, wt 5)])]"

abbreviation run_g4 :: "nat graph" where
  "run_g4 \<equiv> [(0, [(1, wt 5)]), (1, [(2, wt 1), (3, wt 1), (0, wt 5), (4, wt 5)]),
     (2, [(1, wt 1), (5, wt 1)]), (5, [(2, wt 1)]), (3, [(1, wt 1)]), (4, [(1, wt 5)])]"

abbreviation run_g5 :: "nat graph" where
  "run_g5 \<equiv> [(0, []), (2, [(5, wt 1)]), (5, [(2, wt 1)]), (4, [])]"

abbreviation branching_tree :: "nat graph" where
  "branching_tree \<equiv> [(0, [(1, wt 1)]), (1, [(0, wt 1), (2, wt 1), (3, wt 1)]),
     (2, [(1, wt 1)]), (3, [(1, wt 1)])]"

section \<open>Reading the store\<close>

lemma map_of_od_set: "map_of (od_set d k v) k' = (if k' = k then Some v else map_of d k')"
  by (induction d) auto

lemma cells_update_graph [simp]:
  "cells (update_graph r g hp) r' = (if r' = r then g else cells hp r')"
  by (simp add: cells_def update_graph_def map_of_od_set)

lemma next_ref_update_graph [simp]: "next_ref (update_graph r g hp) = next_ref hp"
  by (simp add: update_graph_def)

lemma fst_new_Graph [simp]: "fst (new_Graph g hp) = next_ref hp"
  by (simp add: new_Graph_def)

lemma cells_new_Graph [simp]:
  "cells (snd (new_Graph g hp)) r = (if r = next_ref hp then g else cells hp r)"
  by (simp add: cells_def new_Graph_def map_of_od_set)

lemma next_ref_new_Graph [simp]: "next_ref (snd (new_Graph g hp)) = Suc (next_ref hp)"
  by (simp add: new_Graph_def)

lemma next_ref_empty_heap [simp]: "next_ref empty_heap = 0"
  by (simp add: empty_heap_def)

lemma cells_empty_heap [simp]: "cells empty_heap r = []"
  by (simp add: cells_def empty_heap_def)

section \<open>Which graph objects a call changes\<close>

lemma unchanged_except_refl: "unchanged_except g hp hp"
  by (simp add: unchanged_except_def)

lemma unchanged_except_trans:
  "unchanged_except g hp hp1 \<Longrightarrow> unchanged_except g hp1 hp2 \<Longrightarrow> unchanged_except g hp hp2"
  by (simp add: unchanged_except_def)

lemma unchanged_except_update: "unchanged_except g hp (update_graph g x hp)"
  by (simp add: unchanged_except_def)

lemma distance_loop_frame:
  "distance_loop E g_original h weight ps g hp = (res, hp') \<Longrightarrow> unchanged_except g hp hp'"
proof (induction ps arbitrary: hp)
  case Nil
  then show ?case by (simp add: unchanged_except_refl)
next
  case (Cons p ps)
  show ?case
  proof (cases "astar_path_length E (cells hp g_original) (fst p) (snd p) h weight")
    case (Inl e)
    with Cons.prems show ?thesis by (simp add: unchanged_except_refl)
  next
    case (Inr l)
    with Cons.prems have "unchanged_except g
        (update_graph g (add_edge (cells hp g) (fst p) (snd p) [(''weight'', l)]) hp) hp'"
      by (intro Cons.IH) simp
    then show ?thesis
      by (rule unchanged_except_trans[OF unchanged_except_update])
  qed
qed

lemma add_path_edges_frame:
  "add_path_edges g_original weight es g3 hp = (res, hp') \<Longrightarrow> unchanged_except g3 hp hp'"
proof (induction es arbitrary: hp)
  case Nil
  then show ?case by (simp add: unchanged_except_refl)
next
  case (Cons e es)
  show ?case
  proof (cases "edge_weight_item (cells hp g_original) (fst e) (snd e) weight")
    case (Inl err)
    with Cons.prems show ?thesis by (simp add: unchanged_except_refl)
  next
    case (Inr x)
    with Cons.prems have "unchanged_except g3
        (update_graph g3 (add_edge (cells hp g3) (fst e) (snd e) [(''weight'', x)]) hp) hp'"
      by (intro Cons.IH) simp
    then show ?thesis
      by (rule unchanged_except_trans[OF unchanged_except_update])
  qed
qed

lemma expand_loop_frame:
  "expand_loop E g_original h weight es g3 hp = (res, hp') \<Longrightarrow> unchanged_except g3 hp hp'"
proof (induction es arbitrary: hp)
  case Nil
  then show ?case by (simp add: unchanged_except_refl)
next
  case (Cons e es)
  show ?case
  proof (cases "astar_path E (cells hp g_original) (fst e) (snd e) h weight")
    case (Inl err)
    with Cons.prems show ?thesis by (simp add: unchanged_except_refl)
  next
    case (Inr path)
    obtain r1 hp1 where a: "add_path_edges g_original weight (pairwise path) g3 hp = (r1, hp1)"
      by (cases "add_path_edges g_original weight (pairwise path) g3 hp")
    note f1 = add_path_edges_frame[OF a]
    show ?thesis
    proof (cases r1)
      case (Inl err)
      with Cons.prems Inr a f1 show ?thesis by simp
    next
      case r: (Inr u)
      with Cons.prems Inr a have "expand_loop E g_original h weight es g3 hp1 = (res, hp')"
        by simp
      from unchanged_except_trans[OF f1 Cons.IH[OF this]] show ?thesis .
    qed
  qed
qed

lemma prune_body_frame:
  "prune_body terminal_nodes g node leaf hp = (res, hp') \<Longrightarrow> unchanged_except g hp hp'"
  by (auto simp: prune_body_def Let_def unchanged_except_refl unchanged_except_update
      split: if_splits list.splits sum.splits)

lemma prune_round_frame:
  "prune_round terminal_nodes g snapshot leaf hp = (res, hp') \<Longrightarrow> unchanged_except g hp hp'"
proof (induction snapshot arbitrary: leaf hp)
  case Nil
  then show ?case by (simp add: unchanged_except_refl)
next
  case (Cons node snapshot)
  obtain r1 hp1 where b: "prune_body terminal_nodes g node leaf hp = (r1, hp1)"
    by (cases "prune_body terminal_nodes g node leaf hp")
  note f1 = prune_body_frame[OF b]
  show ?case
  proof (cases r1)
    case (Inl e)
    with Cons.prems b f1 show ?thesis by simp
  next
    case (Inr leaf')
    with Cons.prems b have "prune_round terminal_nodes g snapshot leaf' hp1 = (res, hp')"
      by simp
    from unchanged_except_trans[OF f1 Cons.IH[OF this]] show ?thesis .
  qed
qed

lemma prune_loop_frame:
  "prune_loop terminal_nodes g leaf hp = (res, hp') \<Longrightarrow> unchanged_except g hp hp'"
proof (induction terminal_nodes g leaf hp rule: prune_loop.induct)
  case (1 terminal_nodes g leaf hp)
  show ?case
  proof (cases "leaf = []")
    case True
    with "1.prems" show ?thesis by (simp add: prune_loop.simps unchanged_except_refl)
  next
    case False
    obtain r1 hp1 where b: "prune_round terminal_nodes g leaf leaf hp = (r1, hp1)"
      by (cases "prune_round terminal_nodes g leaf leaf hp")
    note f1 = prune_round_frame[OF b]
    show ?thesis
    proof (cases r1)
      case (Inl e)
      with "1.prems" False b f1 show ?thesis by (simp add: prune_loop.simps[of _ _ leaf])
    next
      case (Inr leaf')
      with "1.prems" False b have "prune_loop terminal_nodes g leaf' hp1 = (res, hp')"
        by (simp add: prune_loop.simps[of _ _ leaf])
      from "1.IH"[OF False b[symmetric] Inr this] f1 show ?thesis
        by (rule unchanged_except_trans[rotated])
    qed
  qed
qed

lemma extends_refl: "extends hp hp"
  by (simp add: extends_def)

lemma extends_trans: "extends hp hp1 \<Longrightarrow> extends hp1 hp2 \<Longrightarrow> extends hp hp2"
  by (auto simp: extends_def)

lemma extends_unchanged_except:
  "unchanged_except g hp hp' \<Longrightarrow> next_ref hp0 \<le> g \<Longrightarrow> extends hp0 hp \<Longrightarrow> extends hp0 hp'"
  by (auto simp: extends_def unchanged_except_def)

lemma get_complete_distance_graph_frame:
  assumes "get_complete_distance_graph E g_original terminal_nodes h weight hp = (res, hp')"
  shows "extends hp hp'" and "next_ref hp' = Suc (next_ref hp)" and "res = Inr g \<Longrightarrow> g = next_ref hp"
proof -
  let ?g = "next_ref hp"
  let ?hp1 = "snd (new_Graph ([]::'a graph) hp)"
  let ?hp2 = "update_graph ?g (add_nodes_from (cells ?hp1 ?g) terminal_nodes) ?hp1"
  obtain r3 hp3 where l: "distance_loop E g_original h weight (combinations2 terminal_nodes) ?g ?hp2 = (r3, hp3)"
    by (cases "distance_loop E g_original h weight (combinations2 terminal_nodes) ?g ?hp2")
  from assms l have hp': "hp' = hp3" and res: "res = Inr g \<Longrightarrow> g = ?g"
    by (auto simp: get_complete_distance_graph_def case_prod_beta Let_def split: sum.splits)
  have e1: "extends hp ?hp1" by (simp add: case_prod_beta extends_def)
  have u: "unchanged_except ?g ?hp1 hp3"
    by (rule unchanged_except_trans[OF unchanged_except_update distance_loop_frame[OF l]])
  from extends_unchanged_except[OF u _ e1] hp' show "extends hp hp'" by simp
  from u hp' show "next_ref hp' = Suc (next_ref hp)"
    by (simp add: unchanged_except_def case_prod_beta)
  show "res = Inr g \<Longrightarrow> g = next_ref hp" by (rule res)
qed

lemma remove_redundant_nodes_frame:
  assumes "remove_redundant_nodes g_original terminal_nodes hp = (res, hp')"
  shows "extends hp hp'" and "next_ref hp' = Suc (next_ref hp)" and "res = Inr g \<Longrightarrow> g = next_ref hp"
proof -
  let ?g = "next_ref hp"
  let ?hp1 = "snd (new_Graph (Graph_of (cells hp g_original)) hp)"
  let ?leaf = "filter (\<lambda>node. degree (cells ?hp1 ?g) node = 1 \<and> node \<notin> set terminal_nodes)
              (nodes (cells ?hp1 ?g))"
  obtain r2 hp2 where l: "prune_loop terminal_nodes ?g ?leaf ?hp1 = (r2, hp2)"
    by (cases "prune_loop terminal_nodes ?g ?leaf ?hp1")
  from assms l have hp': "hp' = hp2" and res: "res = Inr g \<Longrightarrow> g = ?g"
    by (auto simp: remove_redundant_nodes_def case_prod_beta Let_def split: sum.splits)
  have e1: "extends hp ?hp1" by (simp add: case_prod_beta extends_def)
  note u = prune_loop_frame[OF l]
  from extends_unchanged_except[OF u _ e1] hp' show "extends hp hp'" by simp
  from u hp' show "next_ref hp' = Suc (next_ref hp)"
    by (simp add: unchanged_except_def case_prod_beta)
  show "res = Inr g \<Longrightarrow> g = next_ref hp" by (rule res)
qed

lemma kou_et_al_frame:
  assumes "kou_et_al E g_original h terminal_points weight hp = (res, hp')"
  shows "extends hp hp'"
proof -
  obtain r1 hp1 where s1:
    "get_complete_distance_graph E g_original terminal_points h weight hp = (r1, hp1)"
    by (cases "get_complete_distance_graph E g_original terminal_points h weight hp")
  note e1 = get_complete_distance_graph_frame(1)[OF s1]
  show ?thesis
  proof (cases r1)
    case (Inl e)
    with assms s1 e1 show ?thesis by (simp add: kou_et_al_def)
  next
    case (Inr g1)
    let ?g2 = "next_ref hp1"
    let ?hp2 = "snd (new_Graph (minimum_spanning_tree E (cells hp1 g1) weight) hp1)"
    let ?g3 = "Suc (next_ref hp1)"
    let ?hp3 = "snd (new_Graph ([]::'a graph) ?hp2)"
    have e3: "extends hp1 ?hp3" and n3: "next_ref ?hp3 = Suc ?g3"
      by (simp_all add: case_prod_beta extends_def)
    obtain r4 hp4 where s4:
      "expand_loop E g_original h weight (edges (cells ?hp3 ?g2)) ?g3 ?hp3 = (r4, hp4)"
      by (cases "expand_loop E g_original h weight (edges (cells ?hp3 ?g2)) ?g3 ?hp3")
    note u4 = expand_loop_frame[OF s4]
    have e4: "extends hp1 hp4"
      by (rule extends_unchanged_except[OF u4 _ e3]) simp
    show ?thesis
    proof (cases r4)
      case (Inl e)
      with assms s1 Inr s4 have "hp' = hp4"
        by (simp add: kou_et_al_def case_prod_beta Let_def)
      with extends_trans[OF e1 e4] show ?thesis by simp
    next
      case r: (Inr u)
      let ?hp5 = "snd (new_Graph (minimum_spanning_tree E (cells hp4 ?g3) weight) hp4)"
      have e5: "extends hp4 ?hp5"
        by (simp add: case_prod_beta extends_def)
      from assms s1 Inr s4 r
      have "remove_redundant_nodes (next_ref hp4) terminal_points ?hp5 = (res, hp')"
        by (simp add: kou_et_al_def case_prod_beta Let_def)
      note e6 = remove_redundant_nodes_frame(1)[OF this]
      from e1 e4 e5 e6 show ?thesis by (blast intro: extends_trans)
    qed
  qed
qed

section \<open>The input graph is left as it was\<close>

text \<open>
  Claim C9. \<open>kou_et_al\<close> never mutates its input graph: whether the call returns a tree or
  raises, the graph object \<open>g_original\<close> (an object that exists when the call is made) has
  the same value after the call, hence the same nodes, edges and edge weights. This holds for
  every engine, terminal list, heuristic and weight key.
\<close>

theorem kou_et_al_leaves_input_unchanged:
  assumes "g_original < next_ref hp"
  shows "cells (snd (kou_et_al E g_original h terminal_points weight hp)) g_original
         = cells hp g_original"
proof -
  have "extends hp (snd (kou_et_al E g_original h terminal_points weight hp))"
    by (rule kou_et_al_frame[of E g_original h terminal_points weight hp
          "fst (kou_et_al E g_original h terminal_points weight hp)"]) simp
  with assms show ?thesis by (simp add: extends_def)
qed

theorem kou_et_al_leaves_input_unchanged_witness:
  "(0::nat) < next_ref (snd (new_Graph (weighted_graph [(0::nat, 1, 1)]) empty_heap))
   \<and> cells (snd (kou_et_al nx_engine 0 (\<lambda>a b. 0) [0, 1] ''weight''
                (snd (new_Graph (weighted_graph [(0::nat, 1, 1)]) empty_heap)))) 0
     = cells (snd (new_Graph (weighted_graph [(0::nat, 1, 1)]) empty_heap)) 0"
proof -
  have h: "(0::nat) < next_ref (snd (new_Graph (weighted_graph [(0::nat, 1, 1)]) empty_heap))"
    by (simp add: case_prod_beta)
  from h kou_et_al_leaves_input_unchanged[OF h, of nx_engine "\<lambda>a b. 0" "[0, 1]" "''weight''"]
  show ?thesis by simp
qed

text \<open>
  Claim C10. \<open>remove_redundant_nodes\<close> works on a copy: the graph object it is given has
  the same value after the call, and the graph it returns is another object (the one
  created by the call).
\<close>

theorem remove_redundant_nodes_copies_input:
  assumes "g_original < next_ref hp"
  shows "cells (snd (remove_redundant_nodes g_original terminal_nodes hp)) g_original
           = cells hp g_original
         \<and> fst (remove_redundant_nodes g_original terminal_nodes hp) \<noteq> Inr g_original
         \<and> fst (remove_redundant_nodes g_original terminal_nodes hp)
             \<in> {Inr (next_ref hp)} \<union> range Inl"
proof -
  obtain res hp' where r: "remove_redundant_nodes g_original terminal_nodes hp = (res, hp')"
    by (cases "remove_redundant_nodes g_original terminal_nodes hp")
  from remove_redundant_nodes_frame(1)[OF r] assms
  have "cells hp' g_original = cells hp g_original"
    by (simp add: extends_def)
  moreover from remove_redundant_nodes_frame(3)[OF r] assms
  have "res \<noteq> Inr g_original" and "res \<in> {Inr (next_ref hp)} \<union> range Inl"
    by (cases res; auto)+
  ultimately show ?thesis using r by simp
qed

theorem remove_redundant_nodes_copies_input_witness:
  "(0::nat) < next_ref (snd (new_Graph (weighted_graph [(0::nat, 1, 1)]) empty_heap))
   \<and> cells (snd (remove_redundant_nodes 0 [0]
                (snd (new_Graph (weighted_graph [(0::nat, 1, 1)]) empty_heap)))) 0
     = cells (snd (new_Graph (weighted_graph [(0::nat, 1, 1)]) empty_heap)) 0
   \<and> fst (remove_redundant_nodes 0 [0]
                (snd (new_Graph (weighted_graph [(0::nat, 1, 1)]) empty_heap))) \<noteq> Inr 0"
proof -
  have h: "(0::nat) < next_ref (snd (new_Graph (weighted_graph [(0::nat, 1, 1)]) empty_heap))"
    by (simp add: case_prod_beta)
  from h remove_redundant_nodes_copies_input[OF h, of "[0]"]
  show ?thesis by simp
qed

section \<open>Empty and one-element terminal lists\<close>

lemma prune_loop_Nil: "prune_loop terminal_nodes g [] hp = (Inr (), hp)"
  by (simp add: prune_loop.simps)

lemma Graph_of_Nil: "Graph_of [] = []"
  by (simp add: Graph_of_def add_edges_from_def add_nodes_from_def adjacency_entries_def
      nodes_def)

lemma remove_redundant_nodes_Nil:
  "cells hp g = [] \<Longrightarrow>
   remove_redundant_nodes g terminal_nodes hp = (Inr (next_ref hp), snd (new_Graph [] hp))"
  by (simp add: remove_redundant_nodes_def case_prod_beta Graph_of_Nil nodes_def
      prune_loop_Nil)

lemma edges_Nil: "edges [] = []"
  by (simp add: edges_def edges_data_def)

lemma nx_minimum_spanning_tree_Nil: "nx_minimum_spanning_tree [] weight = []"
  by (simp add: nx_minimum_spanning_tree_def edges_data_def nodes_def add_nodes_from_def
      add_edges_from_def)

lemma nx_minimum_spanning_tree_single:
  "nx_minimum_spanning_tree [(t, [])] weight = [(t, [])]"
  by (simp add: nx_minimum_spanning_tree_def edges_data_def nodes_def add_nodes_from_def
      add_edges_from_def add_node_def)

text \<open>
  Claim C4, as amended. The program does not check its terminal list. With an empty list
  no search is made, every intermediate graph (the four objects created before the result)
  is empty, and the call returns a graph without nodes and edges: it raises no error. This
  holds for every input graph, heuristic and weight key, with any engine whose spanning
  tree of the empty graph is the empty graph.
\<close>

theorem kou_et_al_empty_terminals:
  assumes "minimum_spanning_tree E [] weight = []"
  shows "fst (kou_et_al E g_original h [] weight hp) = Inr (next_ref hp + 4)
         \<and> cells (snd (kou_et_al E g_original h [] weight hp)) (next_ref hp + 4) = []
         \<and> cells (snd (kou_et_al E g_original h [] weight hp)) (next_ref hp) = []
         \<and> cells (snd (kou_et_al E g_original h [] weight hp)) (next_ref hp + 1) = []
         \<and> cells (snd (kou_et_al E g_original h [] weight hp)) (next_ref hp + 2) = []
         \<and> cells (snd (kou_et_al E g_original h [] weight hp)) (next_ref hp + 3) = []"
  using assms
  by (simp add: kou_et_al_def get_complete_distance_graph_def case_prod_beta
      add_nodes_from_def edges_Nil remove_redundant_nodes_Nil)

theorem kou_et_al_empty_terminals_witness:
  "minimum_spanning_tree nx_engine ([]::nat graph) ''weight'' = []
   \<and> fst (kou_et_al nx_engine 0 (\<lambda>a b. 0) ([]::nat list) ''weight''
            (snd (new_Graph (weighted_graph [(0, 1, 1)]) empty_heap))) = Inr 5
   \<and> cells (snd (kou_et_al nx_engine 0 (\<lambda>a b. 0) ([]::nat list) ''weight''
            (snd (new_Graph (weighted_graph [(0, 1, 1)]) empty_heap)))) 5 = []"
proof -
  have h: "minimum_spanning_tree nx_engine ([]::nat graph) ''weight'' = []"
    by (simp add: nx_engine_def nx_minimum_spanning_tree_Nil)
  have n: "next_ref (snd (new_Graph (weighted_graph [(0::nat, 1, 1)]) empty_heap)) = 1"
    by (simp add: case_prod_beta)
  note k = kou_et_al_empty_terminals[OF h, of 0 "\<lambda>a b. 0"
      "snd (new_Graph (weighted_graph [(0, 1, 1)]) empty_heap)", unfolded n]
  from h k show ?thesis by simp
qed

theorem kou_et_al_empty_terminals_no_error:
  "fst (kou_et_al nx_engine 0 (\<lambda>a b. 0) ([]::nat list) ''weight''
         (snd (new_Graph (weighted_graph [(0, 1, 1)]) empty_heap))) = Inr 5"
  by code_simp

text \<open>
  Claim C3. With the single terminal \<open>t\<close> the distance graph has the node \<open>t\<close> and no
  edge, so its spanning tree has no edge, no path is expanded, and the graph that receives
  the paths stays empty: the call returns a graph without any node, whatever the input
  graph and the heuristic are. The terminal is not in the result.
\<close>

theorem kou_et_al_single_terminal:
  "fst (kou_et_al nx_engine g_original h [t] weight hp) = Inr (next_ref hp + 4)
   \<and> nodes (cells (snd (kou_et_al nx_engine g_original h [t] weight hp)) (next_ref hp + 4)) = []"
  by (simp add: kou_et_al_def get_complete_distance_graph_def case_prod_beta
      add_nodes_from_def add_node_def nodes_def nx_engine_def nx_minimum_spanning_tree_single
      nx_minimum_spanning_tree_Nil edges_def edges_data_def remove_redundant_nodes_Nil)

text \<open>
  Claim C6. The search and the spanning tree read a missing weight as 1, but the expansion
  of a path reads \<open>g_original[u][v][weight]\<close>, which raises \<open>KeyError\<close> for an edge
  without that attribute. On the graph with the single edge \<open>0 - 1\<close> the call fails when
  the edge has no attribute and returns the edge when its weight is set to 1.
\<close>

theorem kou_et_al_missing_weight:
  "fst (kou_et_al nx_engine 0 (\<lambda>a b. 0) [0, 1] ''weight''
         (snd (new_Graph (add_edge [] (0::nat) 1 []) empty_heap))) = Inl KeyError
   \<and> fst (kou_et_al nx_engine 0 (\<lambda>a b. 0) [0, 1] ''weight''
         (snd (new_Graph (add_edge [] (0::nat) 1 [(''weight'', 1)]) empty_heap))) = Inr 5"
  by code_simp

section \<open>A search that fails\<close>

lemma distance_loop_fails:
  assumes "g \<noteq> g_original"
    and "p \<in> set ps"
    and "astar_path_length E (cells hp g_original) (fst p) (snd p) h weight = Inl e0"
  shows "\<exists>e q. q \<in> set ps
           \<and> astar_path_length E (cells hp g_original) (fst q) (snd q) h weight = Inl e
           \<and> fst (distance_loop E g_original h weight ps g hp) = Inl e"
  using assms(2,3)
proof (induction ps arbitrary: hp)
  case Nil
  then show ?case by simp
next
  case (Cons q ps)
  show ?case
  proof (cases "astar_path_length E (cells hp g_original) (fst q) (snd q) h weight")
    case (Inl e)
    then show ?thesis by (intro exI[of _ e] exI[of _ q]) simp
  next
    case (Inr l)
    let ?hp = "update_graph g (add_edge (cells hp g) (fst q) (snd q) [(''weight'', l)]) hp"
    have same: "cells ?hp g_original = cells hp g_original"
      using assms(1) by simp
    from Cons.prems Inr have "p \<in> set ps" by auto
    from Cons.IH[OF this, of ?hp] Cons.prems(2) same Inr
    show ?thesis by auto
  qed
qed

lemma get_complete_distance_graph_fails:
  assumes "g_original < next_ref hp"
    and "p \<in> set (combinations2 terminal_nodes)"
    and "astar_path_length E (cells hp g_original) (fst p) (snd p) h weight = Inl e0"
  shows "\<exists>e q. q \<in> set (combinations2 terminal_nodes)
           \<and> astar_path_length E (cells hp g_original) (fst q) (snd q) h weight = Inl e
           \<and> fst (get_complete_distance_graph E g_original terminal_nodes h weight hp) = Inl e"
proof -
  let ?g = "next_ref hp"
  let ?hp1 = "snd (new_Graph ([]::'a graph) hp)"
  let ?hp2 = "update_graph ?g (add_nodes_from (cells ?hp1 ?g) terminal_nodes) ?hp1"
  have ne: "?g \<noteq> g_original" using assms(1) by simp
  then have same: "cells ?hp2 g_original = cells hp g_original"
    by (simp add: case_prod_beta)
  from distance_loop_fails[OF ne assms(2), of E ?hp2 h weight e0] assms(3) same
  obtain e q where q: "q \<in> set (combinations2 terminal_nodes)"
    and f: "astar_path_length E (cells hp g_original) (fst q) (snd q) h weight = Inl e"
    and l: "fst (distance_loop E g_original h weight (combinations2 terminal_nodes) ?g ?hp2)
            = Inl e"
    by auto
  from l have "fst (get_complete_distance_graph E g_original terminal_nodes h weight hp) = Inl e"
    by (cases "distance_loop E g_original h weight (combinations2 terminal_nodes) ?g ?hp2")
       (simp add: get_complete_distance_graph_def case_prod_beta)
  with q f show ?thesis by blast
qed

lemma kou_et_al_fails:
  "fst (get_complete_distance_graph E g_original terminal_points h weight hp) = Inl e \<Longrightarrow>
   fst (kou_et_al E g_original h terminal_points weight hp) = Inl e"
  by (cases "get_complete_distance_graph E g_original terminal_points h weight hp")
     (simp add: kou_et_al_def)

text \<open>
  Claim C5. Let two terminals of the list have no path between them in the input graph
  (an object that exists when the call is made), and let the engine's search fail on the
  pairs of terminals that have no path, as its contract says. Then the distance graph
  builder returns no graph and \<open>kou_et_al\<close> returns no tree: both raise the error that
  the search raised for a pair of terminals.
\<close>

theorem kou_et_al_unreachable_terminal:
  assumes "g_original < next_ref hp"
    and "\<forall>p \<in> set (combinations2 terminal_points).
           \<not> has_path (cells hp g_original) (fst p) (snd p) \<longrightarrow>
           (\<exists>e. astar_path_length E (cells hp g_original) (fst p) (snd p) h weight = Inl e)"
    and "\<exists>p \<in> set (combinations2 terminal_points).
           \<not> has_path (cells hp g_original) (fst p) (snd p)"
  shows "\<exists>e. fst (get_complete_distance_graph E g_original terminal_points h weight hp) = Inl e
           \<and> fst (kou_et_al E g_original h terminal_points weight hp) = Inl e
           \<and> (\<exists>q \<in> set (combinations2 terminal_points).
                 astar_path_length E (cells hp g_original) (fst q) (snd q) h weight = Inl e)"
proof -
  from assms(2,3) obtain p e0 where p: "p \<in> set (combinations2 terminal_points)"
    and e0: "astar_path_length E (cells hp g_original) (fst p) (snd p) h weight = Inl e0"
    by blast
  from get_complete_distance_graph_fails[OF assms(1) p e0]
  obtain e q where "q \<in> set (combinations2 terminal_points)"
    and "astar_path_length E (cells hp g_original) (fst q) (snd q) h weight = Inl e"
    and "fst (get_complete_distance_graph E g_original terminal_points h weight hp) = Inl e"
    by blast
  with kou_et_al_fails[of E g_original terminal_points h weight hp e]
  show ?thesis by blast
qed

lemma two_components_no_path:
  "\<not> has_path (add_node (weighted_graph [(0::nat, 1, 1)]) 2) 0 2"
proof -
  let ?G = "add_node (weighted_graph [(0::nat, 1, 1)]) 2"
  have G: "?G = [(0, [(1, [(''weight'', 1)])]), (1, [(0, [(''weight'', 1)])]), (2, [])]"
    by code_simp
  have "y \<in> {0, 1}" if "(0, y) \<in> (edge_rel ?G)\<^sup>*" for y
    using that
  proof (induction rule: rtrancl_induct)
    case base
    show ?case by simp
  next
    case (step y z)
    then show ?case
      unfolding G by (auto simp: edge_rel_def neighbors_def adj_def split: if_splits)
  qed
  from this[of 2] show ?thesis by (auto simp: has_path_def)
qed

theorem kou_et_al_unreachable_terminal_witness:
  "\<not> has_path (cells (snd (new_Graph (add_node (weighted_graph [(0::nat, 1, 1)]) 2) empty_heap)) 0) 0 2
   \<and> (\<exists>e. fst (get_complete_distance_graph nx_engine 0 [0, 2] (\<lambda>a b. 0) ''weight''
               (snd (new_Graph (add_node (weighted_graph [(0::nat, 1, 1)]) 2) empty_heap))) = Inl e
         \<and> fst (kou_et_al nx_engine 0 (\<lambda>a b. 0) [0, 2] ''weight''
               (snd (new_Graph (add_node (weighted_graph [(0::nat, 1, 1)]) 2) empty_heap))) = Inl e)"
proof -
  let ?hp = "snd (new_Graph (add_node (weighted_graph [(0::nat, 1, 1)]) 2) empty_heap)"
  have c: "cells ?hp 0 = add_node (weighted_graph [(0::nat, 1, 1)]) 2"
    and n: "0 < next_ref ?hp"
    by (simp_all add: case_prod_beta)
  have np: "\<not> has_path (cells ?hp 0) 0 2"
    unfolding c by (rule two_components_no_path)
  have s: "astar_path_length nx_engine (cells ?hp 0) 0 2 (\<lambda>a b. 0) ''weight''
           = Inl NetworkXNoPath"
    by code_simp
  have h2: "\<forall>p \<in> set (combinations2 [0, 2::nat]).
           \<not> has_path (cells ?hp 0) (fst p) (snd p) \<longrightarrow>
           (\<exists>e. astar_path_length nx_engine (cells ?hp 0) (fst p) (snd p) (\<lambda>a b. 0) ''weight''
                  = Inl e)"
    using s by simp
  have h3: "\<exists>p \<in> set (combinations2 [0, 2::nat]). \<not> has_path (cells ?hp 0) (fst p) (snd p)"
    using np by simp
  from kou_et_al_unreachable_terminal[OF n h2 h3] np show ?thesis by blast
qed

section \<open>A run that loses the tree\<close>

lemma run_input:
  "weighted_graph [(0, 1, 5), (1, 2, 1), (1, 3, 1), (1, 4, 5), (5, 3, 1), (5, 2, 1)] = run_G"
  by code_simp

lemma run_stage1:
  "get_complete_distance_graph nx_engine 0 [0, 5, 4] (\<lambda>a b. 0) ''weight''
     \<lparr>cells_table = [(0, run_G)], next_ref = 1\<rparr>
   = (Inr 1, \<lparr>cells_table = [(0, run_G), (1, run_g1)], next_ref = 2\<rparr>)"
  by code_simp

lemma run_stage2:
  "new_Graph (minimum_spanning_tree nx_engine
       (cells \<lparr>cells_table = [(0, run_G), (1, run_g1)], next_ref = 2\<rparr> 1) ''weight'')
     \<lparr>cells_table = [(0, run_G), (1, run_g1)], next_ref = 2\<rparr>
   = (2, \<lparr>cells_table = [(0, run_G), (1, run_g1), (2, run_g2)], next_ref = 3\<rparr>)"
  by code_simp

lemma run_stage3:
  "new_Graph [] \<lparr>cells_table = [(0, run_G), (1, run_g1), (2, run_g2)], next_ref = 3\<rparr>
   = (3, \<lparr>cells_table = [(0, run_G), (1, run_g1), (2, run_g2), (3, [])], next_ref = 4\<rparr>)"
  by code_simp

lemma run_stage4:
  "expand_loop nx_engine 0 (\<lambda>a b. 0) ''weight''
     (edges (cells \<lparr>cells_table = [(0, run_G), (1, run_g1), (2, run_g2), (3, [])],
                     next_ref = 4\<rparr> 2)) 3
     \<lparr>cells_table = [(0, run_G), (1, run_g1), (2, run_g2), (3, [])], next_ref = 4\<rparr>
   = (Inr (), \<lparr>cells_table = [(0, run_G), (1, run_g1), (2, run_g2), (3, run_g3)],
                next_ref = 4\<rparr>)"
  by code_simp

lemma run_stage5:
  "new_Graph (minimum_spanning_tree nx_engine
       (cells \<lparr>cells_table = [(0, run_G), (1, run_g1), (2, run_g2), (3, run_g3)],
                next_ref = 4\<rparr> 3) ''weight'')
     \<lparr>cells_table = [(0, run_G), (1, run_g1), (2, run_g2), (3, run_g3)], next_ref = 4\<rparr>
   = (4, \<lparr>cells_table = [(0, run_G), (1, run_g1), (2, run_g2), (3, run_g3), (4, run_g4)],
           next_ref = 5\<rparr>)"
  by code_simp

lemma run_stage6:
  "remove_redundant_nodes 4 [0, 5, 4]
     \<lparr>cells_table = [(0, run_G), (1, run_g1), (2, run_g2), (3, run_g3), (4, run_g4)],
       next_ref = 5\<rparr>
   = (Inr 5, \<lparr>cells_table = [(0, run_G), (1, run_g1), (2, run_g2), (3, run_g3), (4, run_g4),
                               (5, run_g5)], next_ref = 6\<rparr>)"
  by code_simp

lemma in_edge_rel: "(u, v) \<in> edge_rel g \<longleftrightarrow> v \<in> set (neighbors g u)"
  by (simp add: edge_rel_def)

lemma run_reachable:
  "has_path run_G 0 5" "has_path run_G 0 4" "has_path run_G 5 4"
proof -
  have e: "(0, 1) \<in> edge_rel run_G" "(1, 2) \<in> edge_rel run_G" "(2, 5) \<in> edge_rel run_G"
    "(1, 4) \<in> edge_rel run_G" "(5, 2) \<in> edge_rel run_G" "(2, 1) \<in> edge_rel run_G"
    by (simp_all add: in_edge_rel neighbors_def adj_def)
  have n: "set (nodes run_G) = {0, 1, 2, 3, 4, 5}"
    by (auto simp: nodes_def)
  from e have "(0, 5) \<in> (edge_rel run_G)\<^sup>*" "(0, 4) \<in> (edge_rel run_G)\<^sup>*"
    "(5, 4) \<in> (edge_rel run_G)\<^sup>*"
    by (meson rtrancl.simps)+
  with n show "has_path run_G 0 5" "has_path run_G 0 4" "has_path run_G 5 4"
    by (simp_all add: has_path_def)
qed

lemma run_result_split: "\<not> has_path run_g5 0 5"
proof
  assume "has_path run_g5 0 5"
  then have "(0, 5) \<in> (edge_rel run_g5)\<^sup>*"
    by (simp add: has_path_def)
  then show False
    by (cases rule: converse_rtranclE) (simp_all add: in_edge_rel neighbors_def adj_def)
qed

text \<open>
  Claim C1. The input \<open>run_G\<close>, built by adding its six weighted edges in order, is a
  well-formed graph with positive weights; its three terminals 0, 5 and 4 are distinct and
  joined by paths; the heuristic is 0. The two paths
  chosen by the spanning tree of the distance graph go round the square on different sides,
  so the spanning tree \<open>run_g4\<close> of their union has the non-terminal leaf 3 hanging from
  the Steiner point 1. The pruning removes 3, then 1 although 1 joins the terminals. The
  graph returned has the terminals 0 and 4 as isolated nodes, no path from 0 to 5, one edge
  for four nodes, and the non-terminal 2 as a leaf.
\<close>

theorem kou_et_al_run_loses_tree:
  "weighted_graph [(0, 1, 5), (1, 2, 1), (1, 3, 1), (1, 4, 5), (5, 3, 1), (5, 2, 1)] = run_G
   \<and> wf_graph run_G \<and> distinct [0, 5, 4::nat]
   \<and> has_path run_G 0 5 \<and> has_path run_G 0 4 \<and> has_path run_G 5 4
   \<and> kou_et_al nx_engine 0 (\<lambda>a b. 0) [0, 5, 4] ''weight''
         \<lparr>cells_table = [(0, run_G)], next_ref = 1\<rparr>
       = (Inr 5, \<lparr>cells_table = [(0, run_G), (1, run_g1), (2, run_g2), (3, run_g3),
                                   (4, run_g4), (5, run_g5)], next_ref = 6\<rparr>)
   \<and> \<not> has_path run_g5 0 5
   \<and> number_of_nodes run_g5 = 4 \<and> number_of_edges run_g5 = 1
   \<and> degree run_g5 2 = 1 \<and> 2 \<notin> set [0, 5, 4::nat]"
proof -
  have w: "wf_graph run_G"
    by code_simp
  have k: "kou_et_al nx_engine 0 (\<lambda>a b. 0) [0, 5, 4] ''weight''
         \<lparr>cells_table = [(0, run_G)], next_ref = 1\<rparr>
       = (Inr 5, \<lparr>cells_table = [(0, run_G), (1, run_g1), (2, run_g2), (3, run_g3),
                                   (4, run_g4), (5, run_g5)], next_ref = 6\<rparr>)"
    unfolding kou_et_al_def
    by (simp only: run_stage1 run_stage2 run_stage3 run_stage4 run_stage5 run_stage6
        prod.case sum.case Let_def)
  have c: "number_of_nodes run_g5 = 4" "number_of_edges run_g5 = 1" "degree run_g5 2 = 1"
    by code_simp+
  from run_input w k c run_reachable run_result_split show ?thesis
    by simp
qed

section \<open>The pruning loop on a tree with a branching Steiner point\<close>

text \<open>
  Claim C2. The tree \<open>branching_tree\<close> has the terminals 0 and 2, the Steiner point 1
  adjacent to both, and the non-terminal leaf 3 hanging from 1. The pruner copies it into
  the object 1 and starts with the worklist \<open>[3]\<close>. The loop body for the leaf 3 puts its
  neighbour 1 on the worklist, because 1 is not a terminal, although 1 is left with degree
  2. The next round removes 1 while it has degree 2, and the loop ends with the worklist
  empty: the graph returned has the two terminals as isolated nodes.
\<close>

theorem prune_removes_node_of_degree_two:
  "new_Graph (Graph_of (cells \<lparr>cells_table = [(0, branching_tree)], next_ref = 1\<rparr> 0))
       \<lparr>cells_table = [(0, branching_tree)], next_ref = 1\<rparr>
     = (1, \<lparr>cells_table = [(0, branching_tree), (1, branching_tree)], next_ref = 2\<rparr>)
   \<and> filter (\<lambda>node. degree branching_tree node = 1 \<and> node \<notin> set [0, 2])
         (nodes branching_tree) = [3]
   \<and> prune_body [0, 2] 1 3 [3]
         \<lparr>cells_table = [(0, branching_tree), (1, branching_tree)], next_ref = 2\<rparr>
     = (Inr [1],
        \<lparr>cells_table = [(0, branching_tree),
           (1, [(0, [(1, wt 1)]), (1, [(0, wt 1), (2, wt 1)]), (2, [(1, wt 1)])])],
         next_ref = 2\<rparr>)
   \<and> degree [(0, [(1, wt 1)]), (1, [(0, wt 1), (2, wt 1)]), (2, [(1, wt 1)])] (1::nat) = 2
   \<and> prune_body [0, 2] 1 1 [1]
         \<lparr>cells_table = [(0, branching_tree),
           (1, [(0, [(1, wt 1)]), (1, [(0, wt 1), (2, wt 1)]), (2, [(1, wt 1)])])],
          next_ref = 2\<rparr>
     = (Inr [], \<lparr>cells_table = [(0, branching_tree), (1, [(0, []), (2, [])])], next_ref = 2\<rparr>)
   \<and> remove_redundant_nodes 0 [0, 2] \<lparr>cells_table = [(0, branching_tree)], next_ref = 1\<rparr>
     = (Inr 1, \<lparr>cells_table = [(0, branching_tree), (1, [(0, []), (2, [])])], next_ref = 2\<rparr>)"
  by code_simp

section \<open>Dictionaries and the graph operations\<close>

lemma in_keys: "(k, v) \<in> set d \<Longrightarrow> k \<in> fst ` set d"
  by (rule image_eqI[of _ _ "(k, v)"]) simp_all

lemma keys_od_set: "fst ` set (od_set d k v) = insert k (fst ` set d)"
  by (induction d) (auto split: if_splits simp: in_keys)

lemma distinct_od_set: "distinct (map fst d) \<Longrightarrow> distinct (map fst (od_set d k v))"
proof (induction d)
  case Nil
  show ?case by simp
next
  case (Cons e d)
  have "fst ` set (od_set d k v) = insert k (fst ` set d)"
    by (rule keys_od_set)
  with Cons show ?case by (cases e) auto
qed

lemma length_od_set:
  "length (od_set d k v) = (if k \<in> set (map fst d) then length d else Suc (length d))"
  by (induction d) (auto simp: in_keys)

lemma od_set_fresh: "k \<notin> set (map fst d) \<Longrightarrow> od_set d k v = d @ [(k, v)]"
  by (induction d) auto

lemma od_set_present: "distinct (map fst d) \<Longrightarrow> (k, v) \<in> set d \<Longrightarrow> od_set d k v = d"
  by (induction d) (auto simp: in_keys)

lemma dict_update_fresh:
  "distinct (map fst upd) \<Longrightarrow> set (map fst upd) \<inter> set (map fst d) = {} \<Longrightarrow>
   dict_update d upd = d @ upd"
proof (induction upd arbitrary: d)
  case Nil
  show ?case by (simp add: dict_update_def)
next
  case (Cons kv upd)
  from Cons.prems have f: "fst kv \<notin> set (map fst d)" by auto
  have "dict_update d (kv # upd) = dict_update (od_set d (fst kv) (snd kv)) upd"
    by (simp add: dict_update_def)
  also have "\<dots> = dict_update (d @ [kv]) upd"
    using f by (simp add: od_set_fresh)
  also have "\<dots> = (d @ [kv]) @ upd"
    using Cons.prems by (intro Cons.IH) auto
  finally show ?case by simp
qed

lemma dict_update_Nil: "distinct (map fst d) \<Longrightarrow> dict_update [] d = d"
  using dict_update_fresh[of d "[]"] by simp

lemma dict_update_within:
  "distinct (map fst d) \<Longrightarrow> set upd \<subseteq> set d \<Longrightarrow> dict_update d upd = d"
  by (induction upd) (auto simp: dict_update_def od_set_present)

lemma dict_update_same: "distinct (map fst d) \<Longrightarrow> dict_update d d = d"
  by (rule dict_update_within) simp_all

lemma nodes_set_adj [simp]: "nodes (set_adj g u v d) = nodes g"
  by (induction g) (auto simp: set_adj_def nodes_def)

lemma adj_set_adj:
  "adj (set_adj g u v d) a
   = (if a = u \<and> u \<in> set (nodes g) then od_set (adj g u) v d else adj g a)"
  by (induction g) (auto simp: set_adj_def adj_def nodes_def in_keys)

lemma add_node_present: "n \<in> set (nodes g) \<Longrightarrow> add_node g n = g"
  by (simp add: add_node_def)

lemma nodes_add_edge:
  "u \<in> set (nodes g) \<Longrightarrow> v \<in> set (nodes g) \<Longrightarrow> nodes (add_edge g u v d) = nodes g"
  by (simp add: add_edge_def add_node_present Let_def)

lemma adj_add_edge:
  assumes "u \<in> set (nodes g)" "v \<in> set (nodes g)"
  shows "adj (add_edge g u v d) a =
     (let dd = dict_update (case edge_attrs g u v of None \<Rightarrow> [] | Some x \<Rightarrow> x) d;
          au = od_set (adj g u) v dd
      in if a = v then od_set (if v = u then au else adj g v) u dd
         else if a = u then au else adj g a)"
  using assms by (simp add: add_edge_def add_node_present Let_def adj_set_adj)

lemma edge_attrs_add_edge:
  assumes "u \<in> set (nodes g)" "v \<in> set (nodes g)"
  shows "edge_attrs (add_edge g u v d) a b =
     (if (a = u \<and> b = v) \<or> (a = v \<and> b = u)
      then Some (dict_update (case edge_attrs g u v of None \<Rightarrow> [] | Some x \<Rightarrow> x) d)
      else edge_attrs g a b)"
  using assms by (auto simp: edge_attrs_def adj_add_edge Let_def map_of_od_set)

lemma neighbors_add_edge:
  assumes "u \<in> set (nodes g)" "v \<in> set (nodes g)"
  shows "set (neighbors (add_edge g u v d) a) =
     set (neighbors g a) \<union> (if a = u then {v} else {}) \<union> (if a = v then {u} else {})"
  using assms by (auto simp: neighbors_def adj_add_edge Let_def keys_od_set)

lemma distinct_neighbors_add_edge:
  assumes "u \<in> set (nodes g)" "v \<in> set (nodes g)" "distinct (neighbors g a)"
  shows "distinct (neighbors (add_edge g u v d) a)"
  using assms by (auto simp: neighbors_def adj_add_edge Let_def intro!: distinct_od_set)

lemma add_nodes_from_fresh:
  "distinct ns \<Longrightarrow> set ns \<inter> set (nodes g) = {} \<Longrightarrow>
   add_nodes_from g ns = g @ map (\<lambda>n. (n, [])) ns"
proof (induction ns arbitrary: g)
  case Nil
  show ?case by (simp add: add_nodes_from_def)
next
  case (Cons n ns)
  have "add_nodes_from g (n # ns) = add_nodes_from (add_node g n) ns"
    by (simp add: add_nodes_from_def)
  also have "add_node g n = g @ [(n, [])]"
    using Cons.prems by (simp add: add_node_def)
  also have "add_nodes_from (g @ [(n, [])]) ns = (g @ [(n, [])]) @ map (\<lambda>n. (n, [])) ns"
    using Cons.prems by (intro Cons.IH) (auto simp: nodes_def)
  finally show ?case by simp
qed

lemma add_nodes_from_Nil: "distinct ns \<Longrightarrow> add_nodes_from [] ns = map (\<lambda>n. (n, [])) ns"
  using add_nodes_from_fresh[of ns "[]"] by (simp add: nodes_def)

lemma nodes_isolated [simp]: "nodes (map (\<lambda>n. (n, [])) ns) = ns"
  by (simp add: nodes_def comp_def)

lemma adj_isolated [simp]: "adj (map (\<lambda>n. (n, [])) ns) a = []"
  by (induction ns) (auto simp: adj_def)

lemma degree_by_neighbors:
  "distinct (neighbors g n) \<Longrightarrow>
   degree g n = card (set (neighbors g n)) + (if n \<in> set (neighbors g n) then 1 else 0)"
  using distinct_card[of "neighbors g n"] by (simp add: degree_def neighbors_def)

lemma neighbors_by_edge_attrs: "set (neighbors g n) = {b. edge_attrs g n b \<noteq> None}"
  by (auto simp: neighbors_def edge_attrs_def map_of_eq_None_iff)

section \<open>The distance graph\<close>

lemma in_combinations2:
  "(a, b) \<in> set (combinations2 xs) \<Longrightarrow> a \<in> set xs \<and> b \<in> set xs"
  by (induction xs) auto

lemma combinations2_distinct_pair:
  "distinct xs \<Longrightarrow> (a, b) \<in> set (combinations2 xs) \<Longrightarrow>
   a \<noteq> b \<and> (b, a) \<notin> set (combinations2 xs)"
  by (induction xs) (auto dest: in_combinations2)

lemma distinct_combinations2: "distinct xs \<Longrightarrow> distinct (combinations2 xs)"
  by (induction xs) (auto simp: distinct_map inj_on_def dest: in_combinations2)

lemma combinations2_partners:
  "distinct xs \<Longrightarrow> a \<in> set xs \<Longrightarrow>
   {b. (a, b) \<in> set (combinations2 xs) \<or> (b, a) \<in> set (combinations2 xs)} = set xs - {a}"
  by (induction xs) (auto dest: in_combinations2)

lemma sum_list_constant: "\<forall>x \<in> set xs. f x = (c::nat) \<Longrightarrow> sum_list (map f xs) = length xs * c"
  by (induction xs) auto

lemma fold_add_edge_nodes:
  "\<forall>p \<in> set ps. fst p \<in> set (nodes D) \<and> snd p \<in> set (nodes D) \<Longrightarrow>
   nodes (fold (\<lambda>p D. add_edge D (fst p) (snd p) (att p)) ps D) = nodes D"
  by (induction ps arbitrary: D) (simp_all add: nodes_add_edge)

lemma fold_add_edge_neighbors:
  "\<forall>p \<in> set ps. fst p \<in> set (nodes D) \<and> snd p \<in> set (nodes D) \<Longrightarrow>
   set (neighbors (fold (\<lambda>p D. add_edge D (fst p) (snd p) (att p)) ps D) a)
   = set (neighbors D a) \<union> {b. (a, b) \<in> set ps \<or> (b, a) \<in> set ps}"
proof (induction ps arbitrary: D)
  case Nil
  show ?case by simp
next
  case (Cons p ps)
  let ?D = "add_edge D (fst p) (snd p) (att p)"
  from Cons.prems have n: "nodes ?D = nodes D"
    by (simp add: nodes_add_edge)
  with Cons.prems have "\<forall>q \<in> set ps. fst q \<in> set (nodes ?D) \<and> snd q \<in> set (nodes ?D)"
    by simp
  from Cons.IH[OF this] Cons.prems show ?case
    by (cases p) (auto simp: neighbors_add_edge)
qed

lemma fold_add_edge_distinct:
  "\<forall>p \<in> set ps. fst p \<in> set (nodes D) \<and> snd p \<in> set (nodes D) \<Longrightarrow>
   distinct (neighbors D a) \<Longrightarrow>
   distinct (neighbors (fold (\<lambda>p D. add_edge D (fst p) (snd p) (att p)) ps D) a)"
proof (induction ps arbitrary: D)
  case Nil
  then show ?case by simp
next
  case (Cons p ps)
  let ?D = "add_edge D (fst p) (snd p) (att p)"
  from Cons.prems have n: "nodes ?D = nodes D"
    by (simp add: nodes_add_edge)
  with Cons.prems have 1: "\<forall>q \<in> set ps. fst q \<in> set (nodes ?D) \<and> snd q \<in> set (nodes ?D)"
    by simp
  from Cons.prems have 2: "distinct (neighbors ?D a)"
    by (simp add: distinct_neighbors_add_edge)
  from Cons.IH[OF 1 2] show ?case by simp
qed

lemma fold_add_edge_untouched:
  "\<forall>p \<in> set ps. fst p \<in> set (nodes D) \<and> snd p \<in> set (nodes D) \<Longrightarrow>
   (a, b) \<notin> set ps \<Longrightarrow> (b, a) \<notin> set ps \<Longrightarrow>
   edge_attrs (fold (\<lambda>p D. add_edge D (fst p) (snd p) (att p)) ps D) a b = edge_attrs D a b"
proof (induction ps arbitrary: D)
  case Nil
  show ?case by simp
next
  case (Cons p ps)
  let ?D = "add_edge D (fst p) (snd p) (att p)"
  from Cons.prems have n: "nodes ?D = nodes D"
    by (simp add: nodes_add_edge)
  with Cons.prems have 1: "\<forall>q \<in> set ps. fst q \<in> set (nodes ?D) \<and> snd q \<in> set (nodes ?D)"
    by simp
  from Cons.prems have "edge_attrs ?D a b = edge_attrs D a b"
    by (cases p) (auto simp: edge_attrs_add_edge)
  with Cons.IH[OF 1] Cons.prems show ?case by simp
qed

lemma fold_add_edge_new:
  assumes "\<forall>p \<in> set ps. fst p \<in> set (nodes D) \<and> snd p \<in> set (nodes D)"
    and "distinct ps"
    and "\<forall>p \<in> set ps. (snd p, fst p) \<notin> set ps"
    and "\<forall>p \<in> set ps. edge_attrs D (fst p) (snd p) = None"
    and "\<forall>p \<in> set ps. distinct (map fst (att p))"
    and "q \<in> set ps"
  shows "edge_attrs (fold (\<lambda>p D. add_edge D (fst p) (snd p) (att p)) ps D) (fst q) (snd q)
           = Some (att q)
         \<and> edge_attrs (fold (\<lambda>p D. add_edge D (fst p) (snd p) (att p)) ps D) (snd q) (fst q)
           = Some (att q)"
  using assms
proof (induction ps arbitrary: D)
  case Nil
  then show ?case by simp
next
  case (Cons p ps)
  let ?D = "add_edge D (fst p) (snd p) (att p)"
  let ?F = "fold (\<lambda>p D. add_edge D (fst p) (snd p) (att p)) ps"
  from Cons.prems(1) have n: "nodes ?D = nodes D"
    by (simp add: nodes_add_edge)
  with Cons.prems(1)
  have 1: "\<forall>q \<in> set ps. fst q \<in> set (nodes ?D) \<and> snd q \<in> set (nodes ?D)"
    by simp
  have p: "p = (fst p, snd p)" by simp
  show ?case
  proof (cases "q = p")
    case True
    from Cons.prems(2) have a: "(fst p, snd p) \<notin> set ps" by simp
    from Cons.prems(3) have b: "(snd p, fst p) \<notin> set ps" by simp
    from Cons.prems(1,4,5) have "edge_attrs ?D (fst p) (snd p) = Some (att p)"
      and "edge_attrs ?D (snd p) (fst p) = Some (att p)"
      by (simp_all add: edge_attrs_add_edge dict_update_Nil)
    with fold_add_edge_untouched[OF 1 a b] fold_add_edge_untouched[OF 1 b a] True
    show ?thesis by simp
  next
    case False
    with Cons.prems(6) have q: "q \<in> set ps" by simp
    have 4: "\<forall>r \<in> set ps. edge_attrs ?D (fst r) (snd r) = None"
    proof
      fix r assume r: "r \<in> set ps"
      with Cons.prems(2) have "r \<noteq> p" by auto
      then have "\<not> (fst r = fst p \<and> snd r = snd p)"
        by (auto simp: prod_eq_iff)
      moreover from Cons.prems(3) r have "\<not> (fst r = snd p \<and> snd r = fst p)"
        by (metis list.set_intros(1,2) prod.collapse)
      ultimately show "edge_attrs ?D (fst r) (snd r) = None"
        using Cons.prems(1,4) r by (simp add: edge_attrs_add_edge)
    qed
    from Cons.prems(2,3,5) have "distinct ps" "\<forall>p \<in> set ps. (snd p, fst p) \<notin> set ps"
      "\<forall>p \<in> set ps. distinct (map fst (att p))"
      by auto
    from Cons.IH[OF 1 this(1,2) 4 this(3) q] show ?thesis by simp
  qed
qed

lemma distance_loop_value:
  assumes "g \<noteq> g_original"
    and "\<forall>p \<in> set ps.
           astar_path_length E (cells hp g_original) (fst p) (snd p) h weight = Inr (len p)"
  shows "fst (distance_loop E g_original h weight ps g hp) = Inr ()
         \<and> cells (snd (distance_loop E g_original h weight ps g hp)) g
           = fold (\<lambda>p D. add_edge D (fst p) (snd p) [(''weight'', len p)]) ps (cells hp g)"
  using assms(2)
proof (induction ps arbitrary: hp)
  case Nil
  show ?case by simp
next
  case (Cons p ps)
  let ?hp = "update_graph g (add_edge (cells hp g) (fst p) (snd p) [(''weight'', len p)]) hp"
  from assms(1) have same: "cells ?hp g_original = cells hp g_original"
    by simp
  with Cons.prems have "\<forall>q \<in> set ps.
      astar_path_length E (cells ?hp g_original) (fst q) (snd q) h weight = Inr (len q)"
    by simp
  from Cons.IH[OF this] Cons.prems show ?case by simp
qed

text \<open>
  Claim C8. Let the terminals be \<open>k\<close> distinct nodes and let the search return a length
  for every pair of them (every pair is reachable in the input graph, an object that exists
  when the call is made). Then \<open>get_complete_distance_graph\<close> returns a new graph whose
  nodes are exactly the terminals, in their order, with \<open>k (k - 1) / 2\<close> edges: for every
  pair of \<open>combinations(terminal_nodes, 2)\<close> one edge, whose \<open>weight\<close> attribute is the
  length that the search returned for that pair, and no other edge.
\<close>

theorem get_complete_distance_graph_complete:
  assumes "g_original < next_ref hp"
    and "distinct terminal_nodes"
    and "\<forall>p \<in> set (combinations2 terminal_nodes).
           \<exists>l. astar_path_length E (cells hp g_original) (fst p) (snd p) h weight = Inr l"
  shows "fst (get_complete_distance_graph E g_original terminal_nodes h weight hp)
           = Inr (next_ref hp)
     \<and> (let D = cells (snd (get_complete_distance_graph E g_original terminal_nodes h weight hp))
                  (next_ref hp)
        in nodes D = terminal_nodes
         \<and> number_of_edges D = length terminal_nodes * (length terminal_nodes - 1) div 2
         \<and> (\<forall>p \<in> set (combinations2 terminal_nodes).
               \<exists>l. astar_path_length E (cells hp g_original) (fst p) (snd p) h weight = Inr l
                 \<and> edge_attrs D (fst p) (snd p) = Some [(''weight'', l)]
                 \<and> edge_attrs D (snd p) (fst p) = Some [(''weight'', l)])
         \<and> (\<forall>u v. edge_attrs D u v \<noteq> None \<longrightarrow>
               (u, v) \<in> set (combinations2 terminal_nodes)
               \<or> (v, u) \<in> set (combinations2 terminal_nodes)))"
proof -
  let ?T = terminal_nodes
  let ?ps = "combinations2 ?T"
  let ?g = "next_ref hp"
  let ?I = "map (\<lambda>n. (n, [])) ?T :: 'a graph"
  let ?hp2 = "update_graph ?g (add_nodes_from (cells (snd (new_Graph [] hp)) ?g) ?T)
                (snd (new_Graph [] hp))"
  from assms(3) obtain len where len: "\<forall>p \<in> set ?ps.
      astar_path_length E (cells hp g_original) (fst p) (snd p) h weight = Inr (len p)"
    by metis
  let ?D = "fold (\<lambda>p D. add_edge D (fst p) (snd p) [(''weight'', len p)]) ?ps ?I"
  from assms(1) have ne: "?g \<noteq> g_original" by simp
  have c0: "cells ?hp2 ?g = ?I"
    using assms(2) by (simp add: add_nodes_from_Nil)
  from ne have "cells ?hp2 g_original = cells hp g_original" by simp
  with len have "\<forall>p \<in> set ?ps.
      astar_path_length E (cells ?hp2 g_original) (fst p) (snd p) h weight = Inr (len p)"
    by simp
  note dl = distance_loop_value[OF ne this]
  from dl have l1: "fst (distance_loop E g_original h weight ?ps ?g ?hp2) = Inr ()"
    by (rule conjunct1)
  from dl have "cells (snd (distance_loop E g_original h weight ?ps ?g ?hp2)) ?g
      = fold (\<lambda>p D. add_edge D (fst p) (snd p) [(''weight'', len p)]) ?ps (cells ?hp2 ?g)"
    by (rule conjunct2)
  then have l2: "cells (snd (distance_loop E g_original h weight ?ps ?g ?hp2)) ?g = ?D"
    by (simp only: c0)
  have r: "get_complete_distance_graph E g_original ?T h weight hp
           = (Inr ?g, snd (distance_loop E g_original h weight ?ps ?g ?hp2))"
    using l1
    by (cases "distance_loop E g_original h weight ?ps ?g ?hp2")
       (simp add: get_complete_distance_graph_def case_prod_beta)
  have ends: "\<forall>p \<in> set ?ps. fst p \<in> set (nodes ?I) \<and> snd p \<in> set (nodes ?I)"
    using in_combinations2[of _ _ ?T] by (metis nodes_isolated prod.collapse)
  have n: "nodes ?D = ?T"
    using fold_add_edge_nodes[OF ends] by simp
  have rev: "\<forall>p \<in> set ?ps. (snd p, fst p) \<notin> set ?ps"
    using combinations2_distinct_pair[OF assms(2)] by (metis prod.collapse)
  have new: "edge_attrs ?D (fst q) (snd q) = Some [(''weight'', len q)]
         \<and> edge_attrs ?D (snd q) (fst q) = Some [(''weight'', len q)]" if "q \<in> set ?ps" for q
    by (rule fold_add_edge_new[OF ends distinct_combinations2[OF assms(2)] rev _ _ that])
       (simp_all add: edge_attrs_def)
  have old: "(u, v) \<in> set ?ps \<or> (v, u) \<in> set ?ps" if "edge_attrs ?D u v \<noteq> None" for u v
  proof (rule ccontr)
    assume "\<not> ((u, v) \<in> set ?ps \<or> (v, u) \<in> set ?ps)"
    then have "edge_attrs ?D u v = edge_attrs ?I u v"
      by (intro fold_add_edge_untouched[OF ends]) simp_all
    with that show False by (simp add: edge_attrs_def)
  qed
  have deg: "degree ?D a = length ?T - 1" if "a \<in> set ?T" for a
  proof -
    have d: "distinct (neighbors ?D a)"
      by (rule fold_add_edge_distinct[OF ends]) (simp add: neighbors_def)
    have s: "set (neighbors ?D a) = set ?T - {a}"
      using fold_add_edge_neighbors[OF ends, of _ a] combinations2_partners[OF assms(2) that]
      by (simp add: neighbors_def)
    from that assms(2) have "card (set ?T - {a}) = length ?T - 1"
      by (simp add: distinct_card)
    with degree_by_neighbors[OF d] s show ?thesis by simp
  qed
  have "sum_list (map (degree ?D) ?T) = length ?T * (length ?T - 1)"
    by (rule sum_list_constant) (simp add: deg)
  with n have e: "number_of_edges ?D = length ?T * (length ?T - 1) div 2"
    by (simp add: number_of_edges_def)
  from r l2 n e new old len show ?thesis
    by (simp add: Let_def)
qed

theorem get_complete_distance_graph_complete_witness:
  "distinct [0, 1, 2::nat]
   \<and> combinations2 [0, 1, 2::nat] = [(0, 1), (0, 2), (1, 2)]
   \<and> astar_path_length nx_engine (weighted_graph [(0::nat, 1, 2), (1, 2, 3)]) 0 1
         (\<lambda>a b. 0) ''weight'' = Inr 2
   \<and> astar_path_length nx_engine (weighted_graph [(0::nat, 1, 2), (1, 2, 3)]) 0 2
         (\<lambda>a b. 0) ''weight'' = Inr 5
   \<and> astar_path_length nx_engine (weighted_graph [(0::nat, 1, 2), (1, 2, 3)]) 1 2
         (\<lambda>a b. 0) ''weight'' = Inr 3
   \<and> fst (get_complete_distance_graph nx_engine 0 [0, 1, 2] (\<lambda>a b. 0) ''weight''
            \<lparr>cells_table = [(0, weighted_graph [(0::nat, 1, 2), (1, 2, 3)])], next_ref = 1\<rparr>)
       = Inr 1
   \<and> number_of_edges (cells (snd (get_complete_distance_graph nx_engine 0 [0, 1, 2]
            (\<lambda>a b. 0) ''weight''
            \<lparr>cells_table = [(0, weighted_graph [(0::nat, 1, 2), (1, 2, 3)])], next_ref = 1\<rparr>)) 1)
       = 3
   \<and> edge_attrs (cells (snd (get_complete_distance_graph nx_engine 0 [0, 1, 2]
            (\<lambda>a b. 0) ''weight''
            \<lparr>cells_table = [(0, weighted_graph [(0::nat, 1, 2), (1, 2, 3)])], next_ref = 1\<rparr>)) 1)
         0 2 = Some [(''weight'', 5)]"
proof -
  let ?hp = "\<lparr>cells_table = [(0, weighted_graph [(0::nat, 1, 2), (1, 2, 3)])], next_ref = 1\<rparr>"
  have h1: "0 < next_ref ?hp" by simp
  have h2: "distinct [0, 1, 2::nat]" by simp
  have s: "astar_path_length nx_engine (cells ?hp 0) 0 1 (\<lambda>a b. 0) ''weight'' = Inr 2"
    "astar_path_length nx_engine (cells ?hp 0) 0 2 (\<lambda>a b. 0) ''weight'' = Inr 5"
    "astar_path_length nx_engine (cells ?hp 0) 1 2 (\<lambda>a b. 0) ''weight'' = Inr 3"
    by code_simp+
  then have h3: "\<forall>p \<in> set (combinations2 [0, 1, 2::nat]).
      \<exists>l. astar_path_length nx_engine (cells ?hp 0) (fst p) (snd p) (\<lambda>a b. 0) ''weight''
           = Inr l"
    by simp
  let ?r = "get_complete_distance_graph nx_engine 0 [0, 1, 2] (\<lambda>a b. 0) ''weight'' ?hp"
  note t = get_complete_distance_graph_complete[OF h1 h2 h3]
  from t have a: "fst ?r = Inr 1"
    by simp
  from t have b: "number_of_edges (cells (snd ?r) 1) = 3"
    by (simp add: Let_def)
  from t have "\<exists>l. astar_path_length nx_engine (cells ?hp 0) 0 2 (\<lambda>a b. 0) ''weight'' = Inr l
      \<and> edge_attrs (cells (snd ?r) 1) 0 2 = Some [(''weight'', l)]"
    by (auto simp: Let_def)
  with s(2) have c: "edge_attrs (cells (snd ?r) 1) 0 2 = Some [(''weight'', 5)]"
    by auto
  have cmb: "combinations2 [0, 1, 2::nat] = [(0, 1), (0, 2), (1, 2)]"
    by simp
  have cl: "cells ?hp 0 = weighted_graph [(0::nat, 1, 2), (1, 2, 3)]"
    by (simp add: cells_def)
  show ?thesis
    by (intro conjI h2 cmb s[unfolded cl] a b c)
qed

section \<open>The copy made by \<open>nx.Graph(g)\<close> and a graph that is already pruned\<close>

lemma copy_nodes:
  "\<forall>e \<in> set es. fst e \<in> set (nodes G) \<and> fst (snd e) \<in> set (nodes G) \<Longrightarrow>
   nodes (add_edges_from G es) = nodes G"
  unfolding add_edges_from_def
  by (induction es arbitrary: G) (simp_all add: nodes_add_edge)

lemma copy_distinct:
  "\<forall>e \<in> set es. fst e \<in> set (nodes G) \<and> fst (snd e) \<in> set (nodes G) \<Longrightarrow>
   distinct (neighbors G a) \<Longrightarrow> distinct (neighbors (add_edges_from G es) a)"
  unfolding add_edges_from_def
proof (induction es arbitrary: G)
  case Nil
  then show ?case by simp
next
  case (Cons e es)
  let ?G = "add_edge G (fst e) (fst (snd e)) (snd (snd e))"
  from Cons.prems have "nodes ?G = nodes G"
    by (simp add: nodes_add_edge)
  with Cons.prems
  have 1: "\<forall>x \<in> set es. fst x \<in> set (nodes ?G) \<and> fst (snd x) \<in> set (nodes ?G)"
    by simp
  from Cons.prems have 2: "distinct (neighbors ?G a)"
    by (simp add: distinct_neighbors_add_edge)
  from Cons.IH[OF 1 2] show ?case by simp
qed

lemma copy_attrs:
  assumes "\<forall>e \<in> set es. fst e \<in> set (nodes G) \<and> fst (snd e) \<in> set (nodes G)"
    and "\<forall>e \<in> set es. distinct (map fst (snd (snd e)))
           \<and> target (fst e) (fst (snd e)) = Some (snd (snd e))
           \<and> target (fst (snd e)) (fst e) = Some (snd (snd e))"
    and "\<forall>a b. edge_attrs G a b = None \<or> edge_attrs G a b = target a b"
  shows "edge_attrs (add_edges_from G es) a b =
     (if \<exists>e \<in> set es. (fst e = a \<and> fst (snd e) = b) \<or> (fst e = b \<and> fst (snd e) = a)
      then target a b else edge_attrs G a b)"
  using assms unfolding add_edges_from_def
proof (induction es arbitrary: G)
  case Nil
  show ?case by simp
next
  case (Cons e es)
  let ?u = "fst e" and ?v = "fst (snd e)" and ?d = "snd (snd e)"
  let ?G = "add_edge G ?u ?v ?d"
  from Cons.prems(1) have uv: "?u \<in> set (nodes G)" "?v \<in> set (nodes G)"
    by simp_all
  from Cons.prems(2) have d: "distinct (map fst ?d)"
    and t: "target ?u ?v = Some ?d" "target ?v ?u = Some ?d"
    by simp_all
  from Cons.prems(3) t have "edge_attrs G ?u ?v = None \<or> edge_attrs G ?u ?v = Some ?d"
    by metis
  then have dd: "dict_update (case edge_attrs G ?u ?v of None \<Rightarrow> [] | Some x \<Rightarrow> x) ?d = ?d"
    using d by (auto simp: dict_update_Nil dict_update_same)
  have step: "edge_attrs ?G x y =
      (if (x = ?u \<and> y = ?v) \<or> (x = ?v \<and> y = ?u) then Some ?d else edge_attrs G x y)" for x y
    using uv by (simp add: edge_attrs_add_edge dd)
  from uv have "nodes ?G = nodes G"
    by (simp add: nodes_add_edge)
  with Cons.prems(1)
  have 1: "\<forall>x \<in> set es. fst x \<in> set (nodes ?G) \<and> fst (snd x) \<in> set (nodes ?G)"
    by simp
  from Cons.prems(2) have 2: "\<forall>e \<in> set es. distinct (map fst (snd (snd e)))
           \<and> target (fst e) (fst (snd e)) = Some (snd (snd e))
           \<and> target (fst (snd e)) (fst e) = Some (snd (snd e))"
    by simp
  have 3: "\<forall>x y. edge_attrs ?G x y = None \<or> edge_attrs ?G x y = target x y"
    using Cons.prems(3) t by (auto simp: step)
  note IH = Cons.IH[OF 1 2 3]
  let ?m = "\<lambda>x. (fst x = a \<and> fst (snd x) = b) \<or> (fst x = b \<and> fst (snd x) = a)"
  have f: "fold (\<lambda>e g'. add_edge g' (fst e) (fst (snd e)) (snd (snd e))) (e # es) G
      = fold (\<lambda>e g'. add_edge g' (fst e) (fst (snd e)) (snd (snd e))) es ?G"
    by simp
  show ?case
  proof (cases "\<exists>x \<in> set es. ?m x")
    case True
    then have "\<exists>x \<in> set (e # es). ?m x" by simp
    with True IH show ?thesis
      by (simp only: f if_True)
  next
    case False
    with IH have l: "edge_attrs (fold (\<lambda>e g'. add_edge g' (fst e) (fst (snd e)) (snd (snd e)))
        es ?G) a b = edge_attrs ?G a b"
      by (simp only: if_False)
    show ?thesis
    proof (cases "?m e")
      case True
      then have "\<exists>x \<in> set (e # es). ?m x" by simp
      moreover from True t have "edge_attrs ?G a b = target a b"
        by (auto simp: step)
      ultimately show ?thesis
        using l by (simp only: f if_True)
    next
      case ne: False
      with False have "\<not> (\<exists>x \<in> set (e # es). ?m x)" by simp
      moreover from ne have "edge_attrs ?G a b = edge_attrs G a b"
        by (auto simp: step)
      ultimately show ?thesis
        using l by (simp only: f if_False)
    qed
  qed
qed

lemma wf_graph_entry:
  assumes "wf_graph g" and "(u, nb) \<in> set g" and "(v, d) \<in> set nb"
  shows "adj g u = nb" and "edge_attrs g u v = Some d" and "edge_attrs g v u = Some d"
    and "v \<in> set (nodes g)" and "distinct (map fst d)" and "distinct (map fst nb)"
proof -
  from assms(1) have dn: "distinct (map fst g)"
    by (simp add: wf_graph_def nodes_def)
  with assms(2) have "map_of g u = Some nb" by simp
  then show a: "adj g u = nb" by (simp add: adj_def)
  from assms(1) have w: "\<forall>e \<in> set g. distinct (map fst (snd e)) \<and>
      (\<forall>x \<in> set (snd e). fst x \<in> set (nodes g) \<and> distinct (map fst (snd x)) \<and>
         edge_attrs g (fst x) (fst e) = Some (snd x))"
    by (simp add: wf_graph_def list_all_iff)
  from bspec[OF w assms(2)] have 1: "distinct (map fst nb)"
    and 2: "\<forall>x \<in> set nb. fst x \<in> set (nodes g) \<and> distinct (map fst (snd x)) \<and>
         edge_attrs g (fst x) u = Some (snd x)"
    by simp_all
  from 1 show "distinct (map fst nb)" .
  from 1 assms(3) a show "edge_attrs g u v = Some d"
    by (simp add: edge_attrs_def)
  from bspec[OF 2 assms(3)]
  show "edge_attrs g v u = Some d" "v \<in> set (nodes g)" "distinct (map fst d)"
    by simp_all
qed

lemma adjacency_entries_from:
  assumes "e \<in> set (adjacency_entries g)"
  shows "\<exists>nb. (fst e, nb) \<in> set g \<and> snd e \<in> set nb"
proof -
  from assms obtain x nb where "x \<in> set g" "nb \<in> set (snd x)" "e = (fst x, fst nb, snd nb)"
    by (auto simp: adjacency_entries_def)
  then have "(fst e, snd x) \<in> set g \<and> snd e \<in> set (snd x)"
    by simp
  then show ?thesis ..
qed

lemma adjacency_entries_to:
  "(a, nb) \<in> set g \<Longrightarrow> (b, d) \<in> set nb \<Longrightarrow> (a, b, d) \<in> set (adjacency_entries g)"
  by (auto simp: adjacency_entries_def
      intro!: bexI[of _ "(a, nb)"] image_eqI[of _ _ "(b, d)"])

lemma edge_attrs_entry:
  assumes "edge_attrs g a b = Some d"
  shows "(a, b, d) \<in> set (adjacency_entries g)"
proof -
  from assms have m: "map_of (adj g a) b = Some d"
    by (simp add: edge_attrs_def)
  then have "adj g a \<noteq> []" by auto
  then obtain nb where nb: "map_of g a = Some nb" "adj g a = nb"
    by (auto simp: adj_def split: option.splits)
  from nb(1) have "(a, nb) \<in> set g" by (rule map_of_SomeD)
  moreover from m nb(2) have "(b, d) \<in> set nb" by (auto dest: map_of_SomeD)
  ultimately show ?thesis by (rule adjacency_entries_to)
qed

lemma wf_graph_distinct_neighbors:
  assumes "wf_graph g"
  shows "distinct (neighbors g n)"
proof (cases "map_of g n")
  case None
  then show ?thesis by (simp add: neighbors_def adj_def)
next
  case (Some nb)
  then have "(n, nb) \<in> set g" by (rule map_of_SomeD)
  with assms have "distinct (map fst nb)"
    by (auto simp: wf_graph_def list_all_iff)
  with Some show ?thesis by (simp add: neighbors_def adj_def)
qed

lemma Graph_of_wf:
  assumes "wf_graph g"
  shows "nodes (Graph_of g) = nodes g"
    and "edge_attrs (Graph_of g) a b = edge_attrs g a b"
    and "degree (Graph_of g) n = degree g n"
proof -
  let ?I = "map (\<lambda>n. (n, [])) (nodes g) :: 'a graph"
  let ?es = "adjacency_entries g"
  from assms have dn: "distinct (nodes g)"
    by (simp add: wf_graph_def)
  then have G: "Graph_of g = add_edges_from ?I ?es"
    by (simp add: Graph_of_def add_nodes_from_Nil)
  have entry: "fst e \<in> set (nodes g) \<and> fst (snd e) \<in> set (nodes g)
      \<and> distinct (map fst (snd (snd e)))
      \<and> edge_attrs g (fst e) (fst (snd e)) = Some (snd (snd e))
      \<and> edge_attrs g (fst (snd e)) (fst e) = Some (snd (snd e))" if "e \<in> set ?es" for e
  proof -
    from adjacency_entries_from[OF that]
    obtain nb where nb: "(fst e, nb) \<in> set g" "snd e \<in> set nb"
      by blast
    then have "(fst (snd e), snd (snd e)) \<in> set nb" by simp
    from wf_graph_entry[OF assms nb(1) this] nb(1) show ?thesis
      by (auto simp: nodes_def intro: in_keys)
  qed
  have ends: "\<forall>e \<in> set ?es. fst e \<in> set (nodes ?I) \<and> fst (snd e) \<in> set (nodes ?I)"
    using entry by simp
  show n: "nodes (Graph_of g) = nodes g"
    using copy_nodes[OF ends] by (simp add: G)
  have cons: "\<forall>e \<in> set ?es. distinct (map fst (snd (snd e)))
           \<and> edge_attrs g (fst e) (fst (snd e)) = Some (snd (snd e))
           \<and> edge_attrs g (fst (snd e)) (fst e) = Some (snd (snd e))"
    using entry by simp
  have init: "\<forall>a b. edge_attrs ?I a b = None \<or> edge_attrs ?I a b = edge_attrs g a b"
    by (simp add: edge_attrs_def)
  show e: "edge_attrs (Graph_of g) a b = edge_attrs g a b" for a b
  proof (cases "edge_attrs g a b")
    case None
    with copy_attrs[OF ends cons init, of a b] show ?thesis
      by (simp add: G edge_attrs_def[of ?I])
  next
    case (Some d)
    from edge_attrs_entry[OF this]
    have "\<exists>e \<in> set ?es. (fst e = a \<and> fst (snd e) = b) \<or> (fst e = b \<and> fst (snd e) = a)"
      by force
    with copy_attrs[OF ends cons init, of a b] show ?thesis
      by (simp add: G)
  qed
  have d1: "distinct (neighbors (Graph_of g) n)"
    unfolding G by (rule copy_distinct[OF ends]) (simp add: neighbors_def)
  have d2: "distinct (neighbors g n)"
    by (rule wf_graph_distinct_neighbors[OF assms])
  have "set (neighbors (Graph_of g) n) = set (neighbors g n)"
    by (simp add: neighbors_by_edge_attrs e)
  with degree_by_neighbors[OF d1] degree_by_neighbors[OF d2]
  show "degree (Graph_of g) n = degree g n" by simp
qed

text \<open>
  Let the graph given to \<open>remove_redundant_nodes\<close> be well formed and already pruned:
  each of its nodes of degree 1 is a terminal. Then the worklist starts empty, the loop is
  not entered, and the call returns the copy it made, a graph with the same nodes, the same
  edges and the same edge attributes as the input.
\<close>

lemma remove_redundant_nodes_pruned_noop:
  assumes "wf_graph (cells hp g_original)"
    and "\<forall>n \<in> set (nodes (cells hp g_original)).
           degree (cells hp g_original) n = 1 \<longrightarrow> n \<in> set terminal_nodes"
  shows "fst (remove_redundant_nodes g_original terminal_nodes hp) = Inr (next_ref hp)
     \<and> same_graph (cells hp g_original)
         (cells (snd (remove_redundant_nodes g_original terminal_nodes hp)) (next_ref hp))"
proof -
  let ?G = "cells hp g_original"
  note c = Graph_of_wf[OF assms(1)]
  from assms(2) have "filter (\<lambda>node. degree (Graph_of ?G) node = 1 \<and> node \<notin> set terminal_nodes)
      (nodes (Graph_of ?G)) = []"
    by (auto simp: c filter_empty_conv)
  then have "remove_redundant_nodes g_original terminal_nodes hp
      = (Inr (next_ref hp), snd (new_Graph (Graph_of ?G) hp))"
    by (simp add: remove_redundant_nodes_def case_prod_beta prune_loop_Nil)
  then show ?thesis
    by (simp add: same_graph_def c)
qed

lemma remove_redundant_nodes_pruned_noop_example:
  "wf_graph (cells \<lparr>cells_table = [(0, weighted_graph [(0::nat, 1, 1), (1, 2, 1)])],
                    next_ref = 1\<rparr> 0)
   \<and> nodes (weighted_graph [(0::nat, 1, 1), (1, 2, 1)]) = [0, 1, 2]
   \<and> degree (weighted_graph [(0::nat, 1, 1), (1, 2, 1)]) 1 = 2
   \<and> fst (remove_redundant_nodes 0 [0, 2]
           \<lparr>cells_table = [(0, weighted_graph [(0::nat, 1, 1), (1, 2, 1)])], next_ref = 1\<rparr>)
       = Inr 1
   \<and> same_graph (weighted_graph [(0::nat, 1, 1), (1, 2, 1)])
        (cells (snd (remove_redundant_nodes 0 [0, 2]
           \<lparr>cells_table = [(0, weighted_graph [(0::nat, 1, 1), (1, 2, 1)])], next_ref = 1\<rparr>)) 1)"
proof -
  let ?hp = "\<lparr>cells_table = [(0, weighted_graph [(0::nat, 1, 1), (1, 2, 1)])], next_ref = 1\<rparr>"
  have c: "cells ?hp 0 = weighted_graph [(0::nat, 1, 1), (1, 2, 1)]"
    by (simp add: cells_def)
  have h1: "wf_graph (cells ?hp 0)"
    by code_simp
  have h2: "\<forall>n \<in> set (nodes (cells ?hp 0)). degree (cells ?hp 0) n = 1 \<longrightarrow> n \<in> set [0, 2]"
    by code_simp
  note t = remove_redundant_nodes_pruned_noop[OF h1 h2, unfolded c]
  from t have a: "fst (remove_redundant_nodes 0 [0, 2] ?hp) = Inr 1"
    by simp
  from t have b: "same_graph (weighted_graph [(0::nat, 1, 1), (1, 2, 1)])
      (cells (snd (remove_redundant_nodes 0 [0, 2] ?hp)) 1)"
    by simp
  have d: "nodes (weighted_graph [(0::nat, 1, 1), (1, 2, 1)]) = [0, 1, 2]"
    "degree (weighted_graph [(0::nat, 1, 1), (1, 2, 1)]) 1 = 2"
    by code_simp+
  show ?thesis
    by (intro conjI h1 a b d)
qed

text \<open>
  Claim C7. The pruner leaves a graph as it is when each of its nodes of degree 1 is a
  terminal, but what it returns need not be such a graph, so pruning twice is not pruning
  once. The tree \<open>run_g4\<close> is the spanning tree that \<open>kou_et_al\<close> hands to the pruner in
  the run above, with the terminals 0, 5 and 4. The pruner returns \<open>run_g5\<close>, in which the
  non-terminal 2 is a leaf. Applied to \<open>run_g5\<close>, the pruner removes 2 and returns the
  three terminals as isolated nodes, a graph with other nodes and edges than \<open>run_g5\<close>.
\<close>

theorem remove_redundant_nodes_not_idempotent:
  "wf_graph run_g4
   \<and> remove_redundant_nodes 0 [0, 5, 4] \<lparr>cells_table = [(0, run_g4)], next_ref = 1\<rparr>
       = (Inr 1, \<lparr>cells_table = [(0, run_g4), (1, run_g5)], next_ref = 2\<rparr>)
   \<and> degree run_g5 2 = 1 \<and> 2 \<notin> set [0, 5, 4::nat]
   \<and> remove_redundant_nodes 1 [0, 5, 4]
         \<lparr>cells_table = [(0, run_g4), (1, run_g5)], next_ref = 2\<rparr>
       = (Inr 2, \<lparr>cells_table = [(0, run_g4), (1, run_g5), (2, [(0, []), (5, []), (4, [])])],
                  next_ref = 3\<rparr>)
   \<and> nodes [(0::nat, []), (5, []), (4, [])] \<noteq> nodes run_g5
   \<and> edge_attrs [(0::nat, []), (5, []), (4, [])] 2 5 \<noteq> edge_attrs run_g5 2 5
   \<and> \<not> same_graph run_g5 [(0, []), (5, []), (4, [])]"
proof -
  have w: "wf_graph run_g4"
    by code_simp
  have p1: "remove_redundant_nodes 0 [0, 5, 4] \<lparr>cells_table = [(0, run_g4)], next_ref = 1\<rparr>
       = (Inr 1, \<lparr>cells_table = [(0, run_g4), (1, run_g5)], next_ref = 2\<rparr>)"
    by code_simp
  have l: "degree run_g5 2 = 1" "2 \<notin> set [0, 5, 4::nat]"
    by code_simp+
  have p2: "remove_redundant_nodes 1 [0, 5, 4]
         \<lparr>cells_table = [(0, run_g4), (1, run_g5)], next_ref = 2\<rparr>
       = (Inr 2, \<lparr>cells_table = [(0, run_g4), (1, run_g5), (2, [(0, []), (5, []), (4, [])])],
                  next_ref = 3\<rparr>)"
    by code_simp
  have n: "nodes [(0::nat, []), (5, []), (4, [])] \<noteq> nodes run_g5"
    by code_simp
  have e: "edge_attrs [(0::nat, []), (5, []), (4, [])] 2 5 \<noteq> edge_attrs run_g5 2 5"
    by code_simp
  from n have s: "\<not> same_graph run_g5 [(0, []), (5, []), (4, [])]"
    by (simp add: same_graph_def)
  show ?thesis
    by (intro conjI w p1 l p2 n e s)
qed

end
